theory Spec2Isabelle
  imports Complex_Main
begin

section \<open>Text and the drawing surface\<close>

text \<open>
  The repository holds three variants of one canvas component, each with its own
  \<^verbatim>\<open>wrapText\<close> inside \<^verbatim>\<open>drawMeme\<close>:
  \<^item> \<^verbatim>\<open>src/App.tsx\<close>: a fixed font size, greedy wrapping, character-level splitting of a
    word that is too wide (suffix \<open>A\<close> below where a name would clash);
  \<^item> \<^verbatim>\<open>src/unnamed/part_000\<close>, first file: \<^verbatim>\<open>calculateLines\<close> and a loop that shrinks the
    font size by one while it stays above 8 (suffix \<open>B\<close>);
  \<^item> \<^verbatim>\<open>src/unnamed/part_000\<close>, second file: \<^verbatim>\<open>findBestFit\<close>, retried while it returns false,
    with the floor 6 (suffix \<open>C\<close>).

  JavaScript numbers are modelled as reals, strings as lists of 8-bit characters. The
  width measurement of the canvas (\<^verbatim>\<open>context.measureText(s).width\<close>) is a parameter
  \<open>mt\<close> of every function: it maps the font that is selected on the context and the
  string to a width.
\<close>

record font =
  weight :: nat
  px :: real
  family :: "string list"

record ctx =
  font :: font
  textAlign :: string
  textBaseline :: string
  fillStyle :: string

type_synonym measurer = "font \<Rightarrow> string \<Rightarrow> real"

definition measureText :: "measurer \<Rightarrow> ctx \<Rightarrow> string \<Rightarrow> real" where
  "measureText mt c s = mt (font c) s"

text \<open>White space of \<^verbatim>\<open>String.prototype.trim\<close> and of the regular expression \<^verbatim>\<open>\s\<close>,
  among the 8-bit characters: tab, line feed, vertical tab, form feed, carriage return,
  space and the no-break space.\<close>

definition isSpace :: "char \<Rightarrow> bool" where
  "isSpace c \<longleftrightarrow> (let n = (of_char c :: nat) in (9 \<le> n \<and> n \<le> 13) \<or> n = 32 \<or> n = 160)"

definition isLower :: "char \<Rightarrow> bool" where
  "isLower c \<longleftrightarrow> (let n = (of_char c :: nat) in 97 \<le> n \<and> n \<le> 122)"

text \<open>\<^verbatim>\<open>toUpperCase\<close> on the ASCII letters; every other character is kept. The
  capital of a letter from \<open>a\<close> to \<open>z\<close> is 32 below it, which is the letter with the bit
  of value 32 cleared.\<close>

definition toUpperChar :: "char \<Rightarrow> char" where
  "toUpperChar c =
     (if isLower c then
        (case c of Char b0 b1 b2 b3 b4 b5 b6 b7 \<Rightarrow> Char b0 b1 b2 b3 b4 False b6 b7)
      else c)"

definition toUpperCase :: "string \<Rightarrow> string" where
  "toUpperCase s = map toUpperChar s"

definition trim :: "string \<Rightarrow> string" where
  "trim s = rev (dropWhile isSpace (rev (dropWhile isSpace s)))"

text \<open>\<^verbatim>\<open>s.split(/\s+/)\<close>: the pieces between the maximal runs of white space. A run at
  the start or at the end leaves an empty piece there, and the empty string splits into
  one empty piece.\<close>

function splitFrom :: "string \<Rightarrow> string \<Rightarrow> string list" where
  "splitFrom piece [] = [piece]"
| "splitFrom piece (c # cs) =
     (if isSpace c then piece # splitFrom [] (dropWhile isSpace cs)
      else splitFrom (piece @ [c]) cs)"
  by pat_completeness auto
termination
  by (relation "measure (\<lambda>(piece, s). length s)")
     (auto simp: length_dropWhile_le less_Suc_eq_le)

definition splitWs :: "string \<Rightarrow> string list" where
  "splitWs s = splitFrom [] s"

text \<open>\<^verbatim>\<open>lines.join(' ')\<close>, used to state what a line list spells.\<close>

fun joinSp :: "string list \<Rightarrow> string" where
  "joinSp [] = []"
| "joinSp [l] = l"
| "joinSp (l # ls) = l @ '' '' @ joinSp ls"

section \<open>Painting\<close>

text \<open>What one call of \<^verbatim>\<open>wrapText\<close> leaves behind: the values of its locals
  \<^verbatim>\<open>currentFontSize\<close>, \<^verbatim>\<open>lines\<close>, \<^verbatim>\<open>lineHeight\<close> and \<^verbatim>\<open>totalBlockHeight\<close> at the point
  of painting (the record \<open>fit\<close> with the fields \<open>fontSize\<close>, \<open>fitLines\<close>,
  \<open>fitLineHeight\<close> and \<open>blockHeight\<close>; in App.tsx the locals are \<^verbatim>\<open>fSize\<close>, \<^verbatim>\<open>lines\<close>,
  \<^verbatim>\<open>lineHeight\<close> and \<^verbatim>\<open>totalHeight\<close>), the clip rectangle as \<open>(x, y, w, h)\<close>, and the
  \<^verbatim>\<open>fillText(line, x, y)\<close> calls in order. \<^verbatim>\<open>save\<close> and \<^verbatim>\<open>restore\<close> bracket the clip only,
  so the context after the call differs from the one before in the four fields of
  \<open>ctx\<close> at most.\<close>

record fitResult =
  fontSize :: real
  fitLines :: "string list"
  fitLineHeight :: real
  blockHeight :: real

record render =
  fit :: "fitResult option"
  clip :: "(real \<times> real \<times> real \<times> real) option"
  drawn :: "(string \<times> real \<times> real) list"

definition nothing :: render where
  "nothing = \<lparr>fit = None, clip = None, drawn = []\<rparr>"

text \<open>\<^verbatim>\<open>lines.forEach((line, index) => fillText(line, centerX, startY + index * lineHeight))\<close>\<close>

fun paintFrom :: "nat \<Rightarrow> real \<Rightarrow> real \<Rightarrow> real \<Rightarrow> string list \<Rightarrow> (string \<times> real \<times> real) list" where
  "paintFrom index centerX startY lh [] = []"
| "paintFrom index centerX startY lh (line # rest) =
     (line, centerX, startY + real index * lh) # paintFrom (Suc index) centerX startY lh rest"

definition paintLines :: "real \<Rightarrow> real \<Rightarrow> real \<Rightarrow> string list \<Rightarrow> (string \<times> real \<times> real) list" where
  "paintLines centerX startY lh ls = paintFrom 0 centerX startY lh ls"

section \<open>The shrinking fitter (part_000, first file)\<close>

definition fontB :: "real \<Rightarrow> font" where
  "fontB fSize = \<lparr>weight = 800, px = fSize,
     family = [''Inter'', ''Segoe UI'', ''Roboto'', ''Helvetica'', ''Arial'', ''sans-serif'']\<rparr>"

text \<open>The \<^verbatim>\<open>for\<close> loop of \<^verbatim>\<open>calculateLines\<close> over the remaining words; \<open>None\<close> is its
  \<^verbatim>\<open>return null\<close>.\<close>

fun calcLoop :: "(string \<Rightarrow> real) \<Rightarrow> real \<Rightarrow> string list \<Rightarrow> string \<Rightarrow> string list
    \<Rightarrow> (string list \<times> string) option" where
  "calcLoop m maxWidth currentLines currentLine [] = Some (currentLines, currentLine)"
| "calcLoop m maxWidth currentLines currentLine (w # ws) =
     (let testLine = currentLine @ (if currentLine \<noteq> [] then '' '' else []) @ w in
      if m testLine > maxWidth then
        (if m w > maxWidth then None
         else if currentLine \<noteq> [] then calcLoop m maxWidth (currentLines @ [currentLine]) w ws
         else calcLoop m maxWidth (currentLines @ [w]) currentLine ws)
      else calcLoop m maxWidth currentLines testLine ws)"

record lineBlock =
  blockLines :: "string list"
  totalHeight :: real
  blockLineHeight :: real

definition calculateLines :: "measurer \<Rightarrow> string list \<Rightarrow> real \<Rightarrow> ctx \<Rightarrow> real
    \<Rightarrow> lineBlock option \<times> ctx" where
  "calculateLines mt words maxWidth c fSize =
     (let c1 = c\<lparr>font := fontB fSize\<rparr>;
          lHeight = fSize * 1.15
      in (case calcLoop (measureText mt c1) maxWidth [] [] words of
            None \<Rightarrow> None
          | Some (currentLines, currentLine) \<Rightarrow>
              (let ls = (if currentLine \<noteq> [] then currentLines @ [currentLine] else currentLines)
               in Some \<lparr>blockLines = ls, totalHeight = real (length ls) * lHeight,
                        blockLineHeight = lHeight\<rparr>),
          c1))"

lemma ceiling_step_down: "lo < fs \<Longrightarrow> nat \<lceil>fs - 1 - lo\<rceil> < nat \<lceil>fs - lo\<rceil>" for fs lo :: real
proof -
  assume "lo < fs"
  then have "0 < \<lceil>fs - lo\<rceil>" by simp
  moreover have "fs - 1 - lo = (fs - lo) - 1" by simp
  then have "\<lceil>fs - 1 - lo\<rceil> = \<lceil>fs - lo\<rceil> - 1"
    by (simp only: ceiling_diff_one)
  ultimately show ?thesis by linarith
qed

text \<open>The loop \<^verbatim>\<open>while (currentFontSize > 8)\<close>. Its result is the block that made it
  \<^verbatim>\<open>break\<close>, with the font size of that pass, or \<open>None\<close> when the loop ran out; the
  natural number counts the calls of \<^verbatim>\<open>calculateLines\<close>.\<close>

function shrinkLoop :: "measurer \<Rightarrow> string list \<Rightarrow> real \<Rightarrow> real \<Rightarrow> nat \<Rightarrow> ctx \<Rightarrow> real
    \<Rightarrow> (real \<times> lineBlock) option \<times> nat \<times> ctx" where
  "shrinkLoop mt words maxWidth maxHeight tries c currentFontSize =
     (if currentFontSize > 8 then
        (case calculateLines mt words maxWidth c currentFontSize of
           (Some result, c1) \<Rightarrow>
             if totalHeight result \<le> maxHeight then (Some (currentFontSize, result), Suc tries, c1)
             else shrinkLoop mt words maxWidth maxHeight (Suc tries) c1 (currentFontSize - 1)
         | (None, c1) \<Rightarrow> shrinkLoop mt words maxWidth maxHeight (Suc tries) c1 (currentFontSize - 1))
      else (None, tries, c))"
  by pat_completeness auto
termination
proof (relation "measure (\<lambda>(mt, words, maxWidth, maxHeight, tries, c, fs). nat \<lceil>fs - 8\<rceil>)")
  show "wf (measure (\<lambda>(mt, words, maxWidth, maxHeight, tries, c, fs). nat \<lceil>fs - 8 :: real\<rceil>))"
    by simp
qed (simp_all add: ceiling_step_down)

declare shrinkLoop.simps [simp del]

text \<open>\<^verbatim>\<open>wrapText\<close> of this variant. An empty \<^verbatim>\<open>lines\<close> after the loop returns before
  anything is painted.\<close>

definition wrapTextB :: "measurer \<Rightarrow> ctx \<Rightarrow> string \<Rightarrow> real \<Rightarrow> real \<Rightarrow> real \<Rightarrow> real \<Rightarrow> real
    \<Rightarrow> render \<times> ctx" where
  "wrapTextB mt context rawText centerX centerY boxWidth boxHeight initialFontSize =
     (let text = toUpperCase (trim rawText) in
      if text = [] then (nothing, context)
      else
        (let words = splitWs text;
             hPadding = boxWidth * 0.15;
             vPadding = boxHeight * 0.15;
             maxWidth = boxWidth - (hPadding * 2);
             maxHeight = boxHeight - (vPadding * 2)
         in (case shrinkLoop mt words maxWidth maxHeight 0 context initialFontSize of
               (None, tries, c1) \<Rightarrow> (nothing, c1)
             | (Some (fs, result), tries, c1) \<Rightarrow>
                 if blockLines result = [] then (nothing, c1)
                 else
                   (let c2 = c1\<lparr>textAlign := ''center'', textBaseline := ''top'',
                                fillStyle := ''#000000''\<rparr>;
                        startY = centerY - (totalHeight result / 2)
                    in (\<lparr>fit = Some \<lparr>fontSize = fs, fitLines = blockLines result,
                                      fitLineHeight = blockLineHeight result,
                                      blockHeight = totalHeight result\<rparr>,
                         clip = Some (centerX - (boxWidth / 2), centerY - (boxHeight / 2),
                                      boxWidth, boxHeight),
                         drawn = paintLines centerX startY (blockLineHeight result)
                                   (blockLines result)\<rparr>, c2)))))"

text \<open>Assigning \<^verbatim>\<open>canvas.width\<close> resets the context to its initial state.\<close>

definition defaultCtx :: ctx where
  "defaultCtx = \<lparr>font = \<lparr>weight = 400, px = 10, family = [''sans-serif'']\<rparr>,
     textAlign = ''start'', textBaseline = ''alphabetic'', fillStyle = ''#000000''\<rparr>"

text \<open>\<^verbatim>\<open>drawMeme\<close> once the canvas, the image and the fonts are there (it returns at
  once otherwise): \<open>width\<close> and \<open>height\<close> are the natural size of the image, the result
  is what was painted for the top and for the bottom text.\<close>

definition drawMemeB :: "measurer \<Rightarrow> nat \<Rightarrow> nat \<Rightarrow> string \<Rightarrow> string \<Rightarrow> real \<Rightarrow> render \<times> render" where
  "drawMemeB mt width height topText bottomText fontSizeScale =
     (let baseFontSize = real_of_int \<lfloor>real height * 0.055\<rfloor>;
          panelWidth = real width / 2;
          panelHeight = real height / 2;
          rightCenterX = real width * 0.75;
          topCenterY = real height * 0.25;
          bottomCenterY = real height * 0.75;
          scaledFontSize = baseFontSize * fontSizeScale;
          (r1, c1) = (if topText \<noteq> [] then
                        wrapTextB mt defaultCtx topText rightCenterX topCenterY panelWidth panelHeight
                          scaledFontSize
                      else (nothing, defaultCtx));
          (r2, c2) = (if bottomText \<noteq> [] then
                        wrapTextB mt c1 bottomText rightCenterX bottomCenterY panelWidth panelHeight
                          scaledFontSize
                      else (nothing, c1))
      in (r1, r2))"

section \<open>The fixed-size wrapper with character splitting (App.tsx)\<close>

definition fontA :: "real \<Rightarrow> font" where
  "fontA fSize = \<lparr>weight = 800, px = fSize,
     family = [''Inter'', ''Arial Black'', ''Gadget'', ''sans-serif'']\<rparr>"

text \<open>The loop of \<^verbatim>\<open>pushLineWithWordSplit\<close> over the remaining characters, with the
  shared \<^verbatim>\<open>lines\<close> it pushes to.\<close>

fun splitChars :: "(string \<Rightarrow> real) \<Rightarrow> real \<Rightarrow> string list \<Rightarrow> string \<Rightarrow> string
    \<Rightarrow> string list \<times> string" where
  "splitChars m targetMaxWidth lines charLine [] = (lines, charLine)"
| "splitChars m targetMaxWidth lines charLine (char # chars) =
     (let testCharLine = charLine @ [char] in
      if m testCharLine > targetMaxWidth then
        splitChars m targetMaxWidth (if charLine \<noteq> [] then lines @ [charLine] else lines)
          [char] chars
      else splitChars m targetMaxWidth lines testCharLine chars)"

definition pushLineWithWordSplit :: "(string \<Rightarrow> real) \<Rightarrow> real \<Rightarrow> string list \<Rightarrow> string
    \<Rightarrow> string list \<times> string" where
  "pushLineWithWordSplit m targetMaxWidth lines wordToSplit =
     splitChars m targetMaxWidth lines [] wordToSplit"

text \<open>The \<^verbatim>\<open>for (const word of words)\<close> loop of \<^verbatim>\<open>wrapText\<close>; it selects the font again
  in every round.\<close>

fun wrapLoopA :: "measurer \<Rightarrow> font \<Rightarrow> real \<Rightarrow> ctx \<Rightarrow> string list \<Rightarrow> string \<Rightarrow> string list
    \<Rightarrow> ctx \<times> string list \<times> string" where
  "wrapLoopA mt fontString targetMaxWidth c lines currentLine [] = (c, lines, currentLine)"
| "wrapLoopA mt fontString targetMaxWidth c lines currentLine (word # rest) =
     (let c1 = c\<lparr>font := fontString\<rparr>;
          testLine = (if currentLine \<noteq> [] then currentLine @ '' '' @ word else word)
      in if measureText mt c1 testLine > targetMaxWidth then
           (if currentLine \<noteq> [] then
              (if measureText mt c1 word > targetMaxWidth then
                 (case pushLineWithWordSplit (measureText mt c1) targetMaxWidth
                         (lines @ [currentLine]) word of
                    (lines1, charLine) \<Rightarrow>
                      wrapLoopA mt fontString targetMaxWidth c1 lines1 charLine rest)
               else wrapLoopA mt fontString targetMaxWidth c1 (lines @ [currentLine]) word rest)
            else
              (case pushLineWithWordSplit (measureText mt c1) targetMaxWidth lines word of
                 (lines1, charLine) \<Rightarrow>
                   wrapLoopA mt fontString targetMaxWidth c1 lines1 charLine rest))
         else wrapLoopA mt fontString targetMaxWidth c1 lines testLine rest)"

definition wrapTextA :: "measurer \<Rightarrow> ctx \<Rightarrow> string \<Rightarrow> real \<Rightarrow> real \<Rightarrow> real \<Rightarrow> real \<Rightarrow> real
    \<Rightarrow> render \<times> ctx" where
  "wrapTextA mt context rawText centerX centerY boxWidth boxHeight fSize =
     (let text = toUpperCase (trim rawText) in
      if text = [] then (nothing, context)
      else
        (let fontString = fontA fSize;
             c1 = context\<lparr>font := fontString\<rparr>;
             words = splitWs text;
             paddingX = boxWidth * 0.15;
             targetMaxWidth = (boxWidth - (paddingX * 2)) * 0.97;
             lh = fSize * 1.15
         in (case wrapLoopA mt fontString targetMaxWidth c1 [] [] words of
               (c2, lines0, currentLine) \<Rightarrow>
                 (let ls = (if currentLine \<noteq> [] then lines0 @ [currentLine] else lines0);
                      totalHeightA = real (length ls) * lh;
                      c3 = c2\<lparr>textAlign := ''center'', textBaseline := ''middle'',
                              fillStyle := ''#000000'', font := fontString\<rparr>;
                      startY = centerY - (totalHeightA / 2) + (lh / 2)
                  in (\<lparr>fit = Some \<lparr>fontSize = fSize, fitLines = ls, fitLineHeight = lh,
                                    blockHeight = totalHeightA\<rparr>,
                       clip = Some (centerX - boxWidth / 2 + 5, centerY - boxHeight / 2 + 5,
                                    boxWidth - 10, boxHeight - 10),
                       drawn = paintLines centerX startY lh ls\<rparr>, c3)))))"

definition drawMemeA :: "measurer \<Rightarrow> nat \<Rightarrow> nat \<Rightarrow> string \<Rightarrow> string \<Rightarrow> real \<Rightarrow> render \<times> render" where
  "drawMemeA mt width height topText bottomText fontSizeScale =
     (let baseFontSize = real_of_int \<lfloor>real height * 0.065\<rfloor>;
          currentFontSizeA = baseFontSize * fontSizeScale;
          panelWidth = real width / 2;
          panelHeight = real height / 2;
          rightCenterX = real width * 0.75;
          topCenterY = real height * 0.25;
          bottomCenterY = real height * 0.75;
          (r1, c1) = (if topText \<noteq> [] then
                        wrapTextA mt defaultCtx topText rightCenterX topCenterY panelWidth panelHeight
                          currentFontSizeA
                      else (nothing, defaultCtx));
          (r2, c2) = (if bottomText \<noteq> [] then
                        wrapTextA mt c1 bottomText rightCenterX bottomCenterY panelWidth panelHeight
                          currentFontSizeA
                      else (nothing, c1))
      in (r1, r2))"

section \<open>The retrying fitter (part_000, second file)\<close>

text \<open>The \<^verbatim>\<open>for\<close> loop inside \<^verbatim>\<open>findBestFit\<close> over the remaining words, \<open>n\<close> the index
  of the next one. The second component is \<open>None\<close> when the loop left through
  \<^verbatim>\<open>return false\<close>, and the current line otherwise.\<close>

fun fitLoop :: "(string \<Rightarrow> real) \<Rightarrow> real \<Rightarrow> nat \<Rightarrow> string list \<Rightarrow> string \<Rightarrow> string list
    \<Rightarrow> string list \<times> string option" where
  "fitLoop m maxWidth n lines currentLine [] = (lines, Some currentLine)"
| "fitLoop m maxWidth n lines currentLine (w # ws) =
     (let testLine = currentLine @ w @ '' '' in
      if m (trim testLine) > maxWidth \<and> n > 0 then
        (if m w > maxWidth then (lines @ [trim currentLine], None)
         else fitLoop m maxWidth (Suc n) (lines @ [trim currentLine]) (w @ '' '') ws)
      else fitLoop m maxWidth (Suc n) lines testLine ws)"

text \<open>One call of \<^verbatim>\<open>findBestFit\<close> on the context and the locals of \<^verbatim>\<open>wrapText\<close>
  (\<open>fontSize\<close> is \<^verbatim>\<open>currentFontSize\<close>, \<open>blockHeight\<close> is \<^verbatim>\<open>totalBlockHeight\<close>). The natural
  number counts the rounds of its \<^verbatim>\<open>while\<close> loop, over all calls.\<close>

function findBestFit :: "measurer \<Rightarrow> string list \<Rightarrow> real \<Rightarrow> real \<Rightarrow> nat \<Rightarrow> ctx \<Rightarrow> fitResult
    \<Rightarrow> bool \<times> nat \<times> ctx \<times> fitResult" where
  "findBestFit mt words maxWidth maxHeight tries c s =
     (if fontSize s > 6 then
        (let c1 = c\<lparr>font := fontB (fontSize s)\<rparr>;
             lh = fontSize s * 1.15
         in (case fitLoop (measureText mt c1) maxWidth 0 [] [] words of
               (ls, None) \<Rightarrow>
                 (False, Suc tries, c1,
                  s\<lparr>fitLines := ls, fitLineHeight := lh, fontSize := fontSize s - 1\<rparr>)
             | (ls, Some currentLine) \<Rightarrow>
                 (let ls1 = ls @ [trim currentLine];
                      tbh = real (length ls1) * lh
                  in if tbh \<le> maxHeight then
                       (True, Suc tries, c1,
                        s\<lparr>fitLines := ls1, fitLineHeight := lh, blockHeight := tbh\<rparr>)
                     else findBestFit mt words maxWidth maxHeight (Suc tries) c1
                            (s\<lparr>fitLines := ls1, fitLineHeight := lh, blockHeight := tbh,
                               fontSize := fontSize s - 1\<rparr>))))
      else (True, tries, c, s))"
  by pat_completeness auto
termination
proof (relation "measure (\<lambda>(mt, words, maxWidth, maxHeight, tries, c, s). nat \<lceil>fontSize s - 6\<rceil>)")
  show "wf (measure (\<lambda>(mt, words, maxWidth, maxHeight, tries, c, s). nat \<lceil>fontSize s - 6 :: real\<rceil>))"
    by simp
qed (simp_all add: ceiling_step_down)

declare findBestFit.simps [simp del]

lemma findBestFit_false_decreases:
  "findBestFit mt words maxWidth maxHeight tries c s = (False, t1, c1, s1)
   \<Longrightarrow> nat \<lceil>fontSize s1 - 6\<rceil> < nat \<lceil>fontSize s - 6\<rceil>"
proof (induction mt words maxWidth maxHeight tries c s rule: findBestFit.induct)
  case (1 mt words maxWidth maxHeight tries c s)
  show ?case
  proof (cases "fontSize s > 6")
    case False
    with "1.prems" show ?thesis by (simp add: findBestFit.simps)
  next
    case big: True
    let ?c1 = "c\<lparr>font := fontB (fontSize s)\<rparr>"
    obtain ls cur where fl: "fitLoop (measureText mt ?c1) maxWidth 0 [] [] words = (ls, cur)"
      by (cases "fitLoop (measureText mt ?c1) maxWidth 0 [] [] words")
    show ?thesis
    proof (cases cur)
      case None
      with "1.prems" big fl have "fontSize s1 = fontSize s - 1"
        by (auto simp: findBestFit.simps [of mt words maxWidth maxHeight tries c s])
      with big show ?thesis by (simp add: ceiling_step_down)
    next
      case (Some currentLine)
      let ?ls1 = "ls @ [trim currentLine]"
      let ?tbh = "real (length ?ls1) * (fontSize s * 1.15)"
      show ?thesis
      proof (cases "?tbh \<le> maxHeight")
        case True
        with "1.prems" big fl Some show ?thesis
          by (simp add: findBestFit.simps [of mt words maxWidth maxHeight tries c s])
      next
        case False
        let ?s2 = "s\<lparr>fitLines := ?ls1, fitLineHeight := fontSize s * 1.15, blockHeight := ?tbh,
                      fontSize := fontSize s - 1\<rparr>"
        from "1.prems" big fl Some False
        have rec: "findBestFit mt words maxWidth maxHeight (Suc tries) ?c1 ?s2 = (False, t1, c1, s1)"
          by (simp add: findBestFit.simps [of mt words maxWidth maxHeight tries c s])
        have "nat \<lceil>fontSize s1 - 6\<rceil> < nat \<lceil>fontSize ?s2 - 6\<rceil>"
          using "1.IH" [OF big refl refl fl [symmetric] Some refl refl False rec] .
        moreover have "nat \<lceil>fontSize ?s2 - 6\<rceil> < nat \<lceil>fontSize s - 6\<rceil>"
          using big by (simp add: ceiling_step_down)
        ultimately show ?thesis by linarith
      qed
    qed
  qed
qed

text \<open>\<^verbatim>\<open>while (!findBestFit()) {}\<close>\<close>

function retryFit :: "measurer \<Rightarrow> string list \<Rightarrow> real \<Rightarrow> real \<Rightarrow> nat \<Rightarrow> ctx \<Rightarrow> fitResult
    \<Rightarrow> nat \<times> ctx \<times> fitResult" where
  "retryFit mt words maxWidth maxHeight tries c s =
     (case findBestFit mt words maxWidth maxHeight tries c s of
        (True, t1, c1, s1) \<Rightarrow> (t1, c1, s1)
      | (False, t1, c1, s1) \<Rightarrow> retryFit mt words maxWidth maxHeight t1 c1 s1)"
  by pat_completeness auto
termination
proof (relation "measure (\<lambda>(mt, words, maxWidth, maxHeight, tries, c, s). nat \<lceil>fontSize s - 6\<rceil>)")
  show "wf (measure (\<lambda>(mt, words, maxWidth, maxHeight, tries, c, s). nat \<lceil>fontSize s - 6 :: real\<rceil>))"
    by simp
next
  fix mt :: measurer and words maxWidth maxHeight tries c s x y xa ya xb yb
  assume "(x, y) = findBestFit mt words maxWidth maxHeight tries c s" "x = False" "(xa, ya) = y"
    "(xb, yb) = ya"
  then have "findBestFit mt words maxWidth maxHeight tries c s = (False, xa, xb, yb)" by simp
  then have "nat \<lceil>fontSize yb - 6\<rceil> < nat \<lceil>fontSize s - 6\<rceil>"
    by (rule findBestFit_false_decreases)
  then show "((mt, words, maxWidth, maxHeight, xa, xb, yb), mt, words, maxWidth, maxHeight, tries, c, s)
      \<in> measure (\<lambda>(mt, words, maxWidth, maxHeight, tries, c, s). nat \<lceil>fontSize s - 6\<rceil>)"
    by (simp only: in_measure prod.case)
qed

declare retryFit.simps [simp del]

definition wrapTextC :: "measurer \<Rightarrow> ctx \<Rightarrow> string \<Rightarrow> real \<Rightarrow> real \<Rightarrow> real \<Rightarrow> real \<Rightarrow> real
    \<Rightarrow> render \<times> ctx" where
  "wrapTextC mt context rawText centerX centerY boxWidth boxHeight initialFontSize =
     (let text = toUpperCase (trim rawText);
          words = splitWs text
      in if length words = 0 \<or> text = [] then (nothing, context)
         else
           (let hPadding = boxWidth * 0.12;
                vPadding = boxHeight * 0.12;
                maxWidth = boxWidth - (hPadding * 2);
                maxHeight = boxHeight - (vPadding * 2)
            in (case retryFit mt words maxWidth maxHeight 0 context
                       \<lparr>fontSize = initialFontSize, fitLines = [], fitLineHeight = 0,
                        blockHeight = 0\<rparr> of
                  (tries, c1, s1) \<Rightarrow>
                    (let c2 = c1\<lparr>textAlign := ''center'', textBaseline := ''top'',
                                 fillStyle := ''#000000''\<rparr>;
                         startY = centerY - (blockHeight s1 / 2)
                     in (\<lparr>fit = Some s1,
                          clip = Some (centerX - (boxWidth / 2), centerY - (boxHeight / 2),
                                       boxWidth, boxHeight),
                          drawn = paintLines centerX startY (fitLineHeight s1) (fitLines s1)\<rparr>,
                         c2)))))"

definition drawMemeC :: "measurer \<Rightarrow> nat \<Rightarrow> nat \<Rightarrow> string \<Rightarrow> string \<Rightarrow> real \<Rightarrow> render \<times> render" where
  "drawMemeC mt width height topText bottomText fontSizeScale =
     (let baseFontSize = real_of_int \<lfloor>real height * 0.055\<rfloor>;
          panelWidth = real width / 2;
          panelHeight = real height / 2;
          rightCenterX = real width * 0.75;
          topCenterY = real height * 0.25;
          bottomCenterY = real height * 0.75;
          scaledFontSize = baseFontSize * fontSizeScale;
          (r1, c1) = (if topText \<noteq> [] then
                        wrapTextC mt defaultCtx topText rightCenterX topCenterY panelWidth panelHeight
                          scaledFontSize
                      else (nothing, defaultCtx));
          (r2, c2) = (if bottomText \<noteq> [] then
                        wrapTextC mt c1 bottomText rightCenterX bottomCenterY panelWidth panelHeight
                          scaledFontSize
                      else (nothing, c1))
      in (r1, r2))"

section \<open>Auxiliary definitions for the statements\<close>

text \<open>The usable width or height of a box side \<open>d\<close> in the three variants: the side minus
  the padding on both ends (\<^verbatim>\<open>maxWidth\<close>, \<^verbatim>\<open>maxHeight\<close>, \<^verbatim>\<open>targetMaxWidth\<close>).\<close>

definition usableB :: "real \<Rightarrow> real" where
  "usableB d = d - (d * 0.15 * 2)"

definition usableA :: "real \<Rightarrow> real" where
  "usableA d = (d - (d * 0.15 * 2)) * 0.97"

definition usableC :: "real \<Rightarrow> real" where
  "usableC d = d - (d * 0.12 * 2)"

text \<open>\<^verbatim>\<open>if (currentLine) lines.push(currentLine)\<close>\<close>

definition flush :: "string list \<Rightarrow> string \<Rightarrow> string list" where
  "flush ls cur = (if cur \<noteq> [] then ls @ [cur] else ls)"

text \<open>The font sizes a loop \<^verbatim>\<open>while (size > lo) { ...; size -= 1 }\<close> goes through when
  nothing stops it, starting at \<open>f\<close>.\<close>

function scanSizes :: "real \<Rightarrow> real \<Rightarrow> real list" where
  "scanSizes lo f = (if f > lo then f # scanSizes lo (f - 1) else [])"
  by pat_completeness auto
termination
proof (relation "measure (\<lambda>(lo, f). nat \<lceil>f - lo\<rceil>)")
  show "wf (measure (\<lambda>(lo, f). nat \<lceil>f - lo :: real\<rceil>))"
    by simp
next
  fix lo f :: real
  assume "lo < f"
  then have "nat \<lceil>f - 1 - lo\<rceil> < nat \<lceil>f - lo\<rceil>" by (rule ceiling_step_down)
  then show "((lo, f - 1), lo, f) \<in> measure (\<lambda>(lo, f). nat \<lceil>f - lo\<rceil>)"
    by (simp only: in_measure prod.case)
qed

declare scanSizes.simps [simp del]

text \<open>What \<^verbatim>\<open>calculateLines\<close> returns at a font size (it selects its font itself, so
  the context it starts from does not matter), and whether the loop stops there.\<close>

definition blockAt :: "measurer \<Rightarrow> string list \<Rightarrow> real \<Rightarrow> real \<Rightarrow> lineBlock option" where
  "blockAt mt words maxWidth fSize = fst (calculateLines mt words maxWidth defaultCtx fSize)"

definition fitsB :: "measurer \<Rightarrow> string list \<Rightarrow> real \<Rightarrow> real \<Rightarrow> real \<Rightarrow> bool" where
  "fitsB mt words maxWidth maxHeight fSize =
     (case blockAt mt words maxWidth fSize of
        None \<Rightarrow> False
      | Some result \<Rightarrow> totalHeight result \<le> maxHeight)"

text \<open>The vertical midpoint of a block of height \<open>bh\<close> whose first line is drawn at
  \<open>startY\<close>: with the baseline \<^verbatim>\<open>top\<close> the box of a line starts at its \<open>y\<close>, with \<^verbatim>\<open>middle\<close>
  it is centred on it.\<close>

definition blockMid :: "string \<Rightarrow> real \<Rightarrow> real \<Rightarrow> real \<Rightarrow> real" where
  "blockMid baseline lh bh startY =
     (let topEdge = (if baseline = ''middle'' then startY - lh / 2 else startY)
      in (topEdge + (topEdge + bh)) / 2)"

text \<open>A measurement for the examples: every character is as wide as the font size.\<close>

definition charWide :: measurer where
  "charWide f s = px f * real (length s)"

text \<open>The greedy rule as the specification words it (section 4.2): for each word in order
  the candidate is the current line, a space and the word, or the word alone when the
  current line is empty; a candidate that is not wider than \<open>W\<close> becomes the current line;
  otherwise a non-empty current line is closed and the word starts the next one. At the end
  a non-empty current line is the last line.\<close>

fun specGreedyLoop :: "(string \<Rightarrow> real) \<Rightarrow> real \<Rightarrow> string list \<Rightarrow> string \<Rightarrow> string list
    \<Rightarrow> string list \<times> string" where
  "specGreedyLoop m W finished currentLine [] = (finished, currentLine)"
| "specGreedyLoop m W finished currentLine (word # rest) =
     (let candidate = (if currentLine = [] then word else currentLine @ '' '' @ word) in
      if m candidate \<le> W then specGreedyLoop m W finished candidate rest
      else if currentLine \<noteq> [] then specGreedyLoop m W (finished @ [currentLine]) word rest
      else specGreedyLoop m W finished word rest)"

definition specGreedyLines :: "(string \<Rightarrow> real) \<Rightarrow> real \<Rightarrow> string list \<Rightarrow> string list" where
  "specGreedyLines m W words =
     (case specGreedyLoop m W [] [] words of (finished, currentLine) \<Rightarrow> flush finished currentLine)"

text \<open>A word has no white space and is not empty; a trimmed string is not empty and neither
  starts nor ends with white space.\<close>

definition tight :: "string \<Rightarrow> bool" where
  "tight w \<longleftrightarrow> w \<noteq> [] \<and> (\<forall>ch\<in>set w. \<not> isSpace ch)"

definition trimmed :: "string \<Rightarrow> bool" where
  "trimmed g \<longleftrightarrow> g \<noteq> [] \<and> \<not> isSpace (hd g) \<and> \<not> isSpace (last g)"

text \<open>The normalized text: trimmed, in capitals, every run of white space collapsed to one
  space.\<close>

function collapseWs :: "string \<Rightarrow> string" where
  "collapseWs [] = []"
| "collapseWs (c # cs) =
     (if isSpace c then CHR '' '' # collapseWs (dropWhile isSpace cs) else c # collapseWs cs)"
  by pat_completeness auto
termination
  by (relation "measure length") (auto simp: length_dropWhile_le less_Suc_eq_le)

definition normalized :: "string \<Rightarrow> string" where
  "normalized rawText = collapseWs (toUpperCase (trim rawText))"

text \<open>Every piece but the last is maximal: with the first character of the next piece it
  is wider than \<open>W\<close>.\<close>

fun maximalRuns :: "(string \<Rightarrow> real) \<Rightarrow> real \<Rightarrow> string list \<Rightarrow> bool" where
  "maximalRuns m W (a # b # rest) = (m (a @ [hd b]) > W \<and> maximalRuns m W (b # rest))"
| "maximalRuns m W rest = True"

text \<open>The word loop of App.tsx with the measurement fixed to one font; the loop itself
  selects the same font in every round.\<close>

fun wrapPureA :: "(string \<Rightarrow> real) \<Rightarrow> real \<Rightarrow> string list \<Rightarrow> string \<Rightarrow> string list
    \<Rightarrow> string list \<times> string" where
  "wrapPureA m W lines currentLine [] = (lines, currentLine)"
| "wrapPureA m W lines currentLine (word # rest) =
     (let testLine = (if currentLine \<noteq> [] then currentLine @ '' '' @ word else word)
      in if m testLine > W then
           (if currentLine \<noteq> [] then
              (if m word > W then
                 (case pushLineWithWordSplit m W (lines @ [currentLine]) word of
                    (lines1, charLine) \<Rightarrow> wrapPureA m W lines1 charLine rest)
               else wrapPureA m W (lines @ [currentLine]) word rest)
            else
              (case pushLineWithWordSplit m W lines word of
                 (lines1, charLine) \<Rightarrow> wrapPureA m W lines1 charLine rest))
         else wrapPureA m W lines testLine rest)"

text \<open>One pass of the \<^verbatim>\<open>for\<close> loop of \<^verbatim>\<open>findBestFit\<close> at a font size, what it leaves in
  \<^verbatim>\<open>lines\<close> (after the last \<^verbatim>\<open>push\<close> when it ran to the end), and whether \<^verbatim>\<open>findBestFit\<close> returns
  true there because the block is not too high.\<close>

definition passC :: "measurer \<Rightarrow> string list \<Rightarrow> real \<Rightarrow> real \<Rightarrow> string list \<times> string option" where
  "passC mt words maxWidth fSize = fitLoop (mt (fontB fSize)) maxWidth 0 [] [] words"


definition fitsC :: "measurer \<Rightarrow> string list \<Rightarrow> real \<Rightarrow> real \<Rightarrow> real \<Rightarrow> bool" where
  "fitsC mt words maxWidth maxHeight fSize =
     (case passC mt words maxWidth fSize of
        (ls, None) \<Rightarrow> False
      | (ls, Some currentLine) \<Rightarrow> real (length (ls @ [trim currentLine])) * (fSize * 1.15) \<le> maxHeight)"

section \<open>Basic facts\<close>

lemma length_paintFrom: "length (paintFrom k cx sy lh ls) = length ls"
  by (induction ls arbitrary: k) simp_all

lemma nth_paintFrom:
  "i < length ls \<Longrightarrow> paintFrom k cx sy lh ls ! i = (ls ! i, cx, sy + real (k + i) * lh)"
proof (induction ls arbitrary: k i)
  case Nil
  then show ?case by simp
next
  case (Cons l ls)
  show ?case
  proof (cases i)
    case 0
    then show ?thesis by simp
  next
    case (Suc j)
    with Cons.prems have "j < length ls" by simp
    from Cons.IH [OF this, of "Suc k"] Suc show ?thesis by simp
  qed
qed

lemma paintLines_eq:
  "paintLines cx sy lh ls = map (\<lambda>i. (ls ! i, cx, sy + real i * lh)) [0..<length ls]"
proof (rule nth_equalityI)
  show "length (paintLines cx sy lh ls) = length (map (\<lambda>i. (ls ! i, cx, sy + real i * lh)) [0..<length ls])"
    by (simp add: paintLines_def length_paintFrom)
next
  fix i
  assume "i < length (paintLines cx sy lh ls)"
  then have "i < length ls" by (simp add: paintLines_def length_paintFrom)
  then show "paintLines cx sy lh ls ! i = map (\<lambda>i. (ls ! i, cx, sy + real i * lh)) [0..<length ls] ! i"
    by (simp add: paintLines_def nth_paintFrom)
qed

lemma splitFrom_not_Nil: "splitFrom piece s \<noteq> []"
  by (induction piece s rule: splitFrom.induct) simp_all

lemma splitWs_not_Nil: "splitWs s \<noteq> []"
  by (simp add: splitWs_def splitFrom_not_Nil)

lemma measureText_pin: "measureText mt (c\<lparr>font := F\<rparr>) = mt F"
  by (rule ext) (simp add: measureText_def)

lemma calculateLines_eq:
  "calculateLines mt words W c f = (blockAt mt words W f, c\<lparr>font := fontB f\<rparr>)"
  by (simp add: calculateLines_def blockAt_def measureText_pin Let_def)

lemma wrapTextB_unfold:
  "wrapTextB mt c raw cx cy bw bh init =
     (if toUpperCase (trim raw) = [] then (nothing, c)
      else
        (case shrinkLoop mt (splitWs (toUpperCase (trim raw))) (usableB bw) (usableB bh) 0 c init of
           (None, tries, c1) \<Rightarrow> (nothing, c1)
         | (Some (fs, result), tries, c1) \<Rightarrow>
             if blockLines result = [] then (nothing, c1)
             else
               (\<lparr>fit = Some \<lparr>fontSize = fs, fitLines = blockLines result,
                                fitLineHeight = blockLineHeight result,
                                blockHeight = totalHeight result\<rparr>,
                 clip = Some (cx - (bw / 2), cy - (bh / 2), bw, bh),
                 drawn = paintLines cx (cy - (totalHeight result / 2)) (blockLineHeight result)
                           (blockLines result)\<rparr>,
                c1\<lparr>textAlign := ''center'', textBaseline := ''top'', fillStyle := ''#000000''\<rparr>)))"
  by (simp add: wrapTextB_def usableB_def Let_def split: prod.splits option.splits)

lemma wrapTextA_unfold:
  "wrapTextA mt c raw cx cy bw bh fSize =
     (if toUpperCase (trim raw) = [] then (nothing, c)
      else
        (case wrapLoopA mt (fontA fSize) (usableA bw) (c\<lparr>font := fontA fSize\<rparr>) [] []
                (splitWs (toUpperCase (trim raw))) of
           (c2, lines0, currentLine) \<Rightarrow>
             (\<lparr>fit = Some \<lparr>fontSize = fSize, fitLines = flush lines0 currentLine,
                              fitLineHeight = fSize * 1.15,
                              blockHeight = real (length (flush lines0 currentLine)) * (fSize * 1.15)\<rparr>,
               clip = Some (cx - bw / 2 + 5, cy - bh / 2 + 5, bw - 10, bh - 10),
               drawn = paintLines cx
                         (cy - (real (length (flush lines0 currentLine)) * (fSize * 1.15) / 2)
                            + (fSize * 1.15 / 2))
                         (fSize * 1.15) (flush lines0 currentLine)\<rparr>,
              c2\<lparr>textAlign := ''center'', textBaseline := ''middle'', fillStyle := ''#000000'',
                 font := fontA fSize\<rparr>)))"
  by (simp add: wrapTextA_def usableA_def flush_def Let_def split: prod.splits)

lemma wrapTextC_unfold:
  "wrapTextC mt c raw cx cy bw bh init =
     (if toUpperCase (trim raw) = [] then (nothing, c)
      else
        (case retryFit mt (splitWs (toUpperCase (trim raw))) (usableC bw) (usableC bh) 0 c
                \<lparr>fontSize = init, fitLines = [], fitLineHeight = 0, blockHeight = 0\<rparr> of
           (tries, c1, s1) \<Rightarrow>
             (\<lparr>fit = Some s1,
               clip = Some (cx - (bw / 2), cy - (bh / 2), bw, bh),
               drawn = paintLines cx (cy - (blockHeight s1 / 2)) (fitLineHeight s1) (fitLines s1)\<rparr>,
              c1\<lparr>textAlign := ''center'', textBaseline := ''top'', fillStyle := ''#000000''\<rparr>)))"
  by (simp add: wrapTextC_def usableC_def Let_def splitWs_not_Nil split: prod.splits)

section \<open>The shrinking loop as a scan\<close>

lemma blockAt_Some:
  assumes "blockAt mt words W f = Some r"
  shows "totalHeight r = real (length (blockLines r)) * blockLineHeight r"
    and "blockLineHeight r = f * 1.15"
  using assms
  by (auto simp: blockAt_def calculateLines_def Let_def split: option.splits prod.splits)

lemma shrinkLoop_step:
  "shrinkLoop mt words W H t c f =
     (if f > 8 then
        (if fitsB mt words W H f then
           (Some (f, the (blockAt mt words W f)), Suc t, c\<lparr>font := fontB f\<rparr>)
         else shrinkLoop mt words W H (Suc t) (c\<lparr>font := fontB f\<rparr>) (f - 1))
      else (None, t, c))"
  by (subst shrinkLoop.simps)
     (simp add: calculateLines_eq fitsB_def split: option.splits)

lemma length_scanSizes: "length (scanSizes lo f) = nat \<lceil>f - lo\<rceil>"
proof (induction lo f rule: scanSizes.induct)
  case (1 lo f)
  show ?case
  proof (cases "f > lo")
    case True
    have "nat \<lceil>f - 1 - lo\<rceil> < nat \<lceil>f - lo\<rceil>"
      using True by (rule ceiling_step_down)
    moreover have "\<lceil>f - 1 - lo\<rceil> = \<lceil>f - lo\<rceil> - 1"
    proof -
      have "f - 1 - lo = (f - lo) - 1" by simp
      then show ?thesis by (simp only: ceiling_diff_one)
    qed
    ultimately have "Suc (nat \<lceil>f - 1 - lo\<rceil>) = nat \<lceil>f - lo\<rceil>" by linarith
    with 1 True show ?thesis by (subst scanSizes.simps) simp
  next
    case False
    then have "\<lceil>f - lo\<rceil> \<le> 0" by (simp add: ceiling_le_iff)
    with False show ?thesis by (subst scanSizes.simps) simp
  qed
qed

lemma shrinkLoop_scan:
  "fst (shrinkLoop mt words W H t c f0) =
     map_option (\<lambda>f. (f, the (blockAt mt words W f))) (find (fitsB mt words W H) (scanSizes 8 f0))"
proof (induction "8::real" f0 arbitrary: t c rule: scanSizes.induct)
  case (1 f)
  show ?case
  proof (cases "f > 8")
    case True
    show ?thesis
    proof (cases "fitsB mt words W H f")
      case fits: True
      with True show ?thesis
        by (subst shrinkLoop_step, subst scanSizes.simps) simp
    next
      case False
      with True "1" [OF True] show ?thesis
        by (subst shrinkLoop_step, subst scanSizes.simps) simp
    qed
  next
    case False
    then show ?thesis by (subst shrinkLoop_step, subst scanSizes.simps) simp
  qed
qed

lemma shrinkLoop_tries:
  "fst (snd (shrinkLoop mt words W H t c f0)) \<le> t + length (scanSizes 8 f0)"
proof (induction "8::real" f0 arbitrary: t c rule: scanSizes.induct)
  case (1 f)
  show ?case
  proof (cases "f > 8")
    case True
    show ?thesis
    proof (cases "fitsB mt words W H f")
      case fits: True
      with True show ?thesis
        by (subst shrinkLoop_step, subst scanSizes.simps) simp
    next
      case False
      with True "1" [OF True, of "Suc t" "c\<lparr>font := fontB f\<rparr>"] show ?thesis
        by (subst shrinkLoop_step, subst scanSizes.simps) simp
    qed
  next
    case False
    then show ?thesis by (subst shrinkLoop_step) simp
  qed
qed

lemma find_Some_fitsB: "find (fitsB mt words W H) xs = Some f \<Longrightarrow> fitsB mt words W H f"
  by (auto simp: find_Some_iff)

lemma wrapTextB_Some:
  assumes "fit (fst (wrapTextB mt c raw cx cy bw bh init)) = Some f"
  shows "\<exists>r. blockAt mt (splitWs (toUpperCase (trim raw))) (usableB bw) (fontSize f) = Some r \<and>
           find (fitsB mt (splitWs (toUpperCase (trim raw))) (usableB bw) (usableB bh))
             (scanSizes 8 init) = Some (fontSize f) \<and>
           f = \<lparr>fontSize = fontSize f, fitLines = blockLines r,
                 fitLineHeight = blockLineHeight r, blockHeight = totalHeight r\<rparr> \<and>
           blockLines r \<noteq> [] \<and>
           drawn (fst (wrapTextB mt c raw cx cy bw bh init)) =
             paintLines cx (cy - (totalHeight r / 2)) (blockLineHeight r) (blockLines r) \<and>
           textAlign (snd (wrapTextB mt c raw cx cy bw bh init)) = ''center'' \<and>
           textBaseline (snd (wrapTextB mt c raw cx cy bw bh init)) = ''top''"
proof -
  let ?words = "splitWs (toUpperCase (trim raw))"
  let ?sl = "shrinkLoop mt ?words (usableB bw) (usableB bh) 0 c init"
  let ?found = "find (fitsB mt ?words (usableB bw) (usableB bh)) (scanSizes 8 init)"
  obtain res tries c1 where sl: "?sl = (res, tries, c1)"
    by (cases ?sl)
  from assms have ne: "toUpperCase (trim raw) \<noteq> []"
    by (cases "toUpperCase (trim raw) = []") (simp_all add: wrapTextB_unfold nothing_def)
  have scan: "res = map_option (\<lambda>f. (f, the (blockAt mt ?words (usableB bw) f))) ?found"
    using shrinkLoop_scan [of mt ?words "usableB bw" "usableB bh" 0 c init] sl by simp
  show ?thesis
  proof (cases ?found)
    case None
    with scan have "res = None" by simp
    with assms ne sl show ?thesis by (simp add: wrapTextB_unfold nothing_def)
  next
    case (Some f0)
    then have "fitsB mt ?words (usableB bw) (usableB bh) f0" by (rule find_Some_fitsB)
    then obtain r where r: "blockAt mt ?words (usableB bw) f0 = Some r"
      by (auto simp: fitsB_def split: option.splits)
    from scan Some r have res: "res = Some (f0, r)" by simp
    show ?thesis
    proof (cases "blockLines r = []")
      case True
      with assms ne sl res show ?thesis by (simp add: wrapTextB_unfold nothing_def)
    next
      case False
      with assms ne sl res have f: "f = \<lparr>fontSize = f0, fitLines = blockLines r,
          fitLineHeight = blockLineHeight r, blockHeight = totalHeight r\<rparr>"
        by (simp add: wrapTextB_unfold)
      with ne sl res False r Some show ?thesis by (simp add: wrapTextB_unfold)
    qed
  qed
qed

section \<open>The greedy rule\<close>

lemma calcLoop_greedy:
  "\<forall>w\<in>set ws. m w \<le> W \<Longrightarrow> calcLoop m W ls cur ws = Some (specGreedyLoop m W ls cur ws)"
proof (induction ws arbitrary: ls cur)
  case Nil
  show ?case by simp
next
  case (Cons w ws)
  then have w: "m w \<le> W" and rest: "\<forall>w\<in>set ws. m w \<le> W" by simp_all
  note IH = Cons.IH [OF rest]
  show ?case
  proof (cases "cur = []")
    case True
    with w show ?thesis by (simp add: IH Let_def)
  next
    case False
    with w show ?thesis by (simp add: IH Let_def)
  qed
qed

lemma wrapLoopA_greedy:
  "\<forall>w\<in>set ws. mt F w \<le> W \<Longrightarrow>
   wrapLoopA mt F W c ls cur ws =
     (if ws = [] then c else c\<lparr>font := F\<rparr>, specGreedyLoop (mt F) W ls cur ws)"
proof (induction ws arbitrary: c ls cur)
  case Nil
  show ?case by simp
next
  case (Cons w ws)
  then have w: "mt F w \<le> W" and rest: "\<forall>w\<in>set ws. mt F w \<le> W" by simp_all
  note IH = Cons.IH [OF rest]
  show ?case
  proof (cases "cur = []")
    case True
    with w show ?thesis by (simp add: IH Let_def measureText_def)
  next
    case False
    with w show ?thesis by (simp add: IH Let_def measureText_def)
  qed
qed

section \<open>Trimming, capitals, splitting and joining\<close>


lemma up_space: "isSpace (toUpperChar c) = isSpace c"
  by (cases c) (auto simp: isLower_def toUpperChar_def isSpace_def)


lemma space_isSpace: "isSpace CHR '' ''"
  by (simp add: isSpace_def)


lemma dropWhile_all: "(\<forall>x\<in>set (dropWhile P xs). P x) \<longleftrightarrow> (\<forall>x\<in>set xs. P x)"
  by (induction xs) auto

lemma trim_Nil_iff: "trim s = [] \<longleftrightarrow> (\<forall>ch\<in>set s. isSpace ch)"
proof -
  have "trim s = [] \<longleftrightarrow> (\<forall>ch\<in>set (rev (dropWhile isSpace s)). isSpace ch)"
    by (simp add: trim_def dropWhile_eq_Nil_conv)
  also have "\<dots> \<longleftrightarrow> (\<forall>ch\<in>set (dropWhile isSpace s). isSpace ch)" by simp
  also have "\<dots> \<longleftrightarrow> (\<forall>ch\<in>set s. isSpace ch)" by (rule dropWhile_all)
  finally show ?thesis .
qed

lemma last_dropWhile: "dropWhile P xs \<noteq> [] \<Longrightarrow> last (dropWhile P xs) = last xs"
proof -
  assume ne: "dropWhile P xs \<noteq> []"
  have "last xs = last (takeWhile P xs @ dropWhile P xs)" by simp
  also have "\<dots> = last (dropWhile P xs)" using ne by (rule last_appendR)
  finally show ?thesis by simp
qed

lemma trim_ends:
  assumes "trim s \<noteq> []"
  shows "\<not> isSpace (hd (trim s))" and "\<not> isSpace (last (trim s))"
proof -
  let ?d = "dropWhile isSpace s"
  let ?e = "dropWhile isSpace (rev ?d)"
  from assms have e: "?e \<noteq> []" by (simp add: trim_def)
  have d: "?d \<noteq> []"
  proof
    assume a: "?d = []"
    have "?e = []" unfolding a by simp
    with e show False by blast
  qed
  have "hd (trim s) = last ?e" using e by (simp add: trim_def hd_rev)
  also have "\<dots> = last (rev ?d)" using e by (rule last_dropWhile)
  also have "\<dots> = hd ?d" using d by (simp add: last_rev)
  finally have "hd (trim s) = hd ?d" .
  moreover have "\<not> isSpace (hd ?d)" using d by (rule hd_dropWhile)
  ultimately show "\<not> isSpace (hd (trim s))" by simp
  have "last (trim s) = hd ?e" using e by (simp add: trim_def last_rev)
  moreover have "\<not> isSpace (hd ?e)" using e by (rule hd_dropWhile)
  ultimately show "\<not> isSpace (last (trim s))" by simp
qed

lemma set_trim: "set (trim s) \<subseteq> set s"
proof -
  have "set (trim s) \<subseteq> set (rev (dropWhile isSpace s))"
    unfolding trim_def by (auto dest: set_dropWhileD)
  also have "\<dots> \<subseteq> set s" by (auto dest: set_dropWhileD)
  finally show ?thesis .
qed

lemma tight_trimmed: "tight w \<Longrightarrow> trimmed w"
  by (auto simp: tight_def trimmed_def)

lemma trim_trimmed: "trimmed g \<Longrightarrow> trim g = g"
proof -
  assume "trimmed g"
  then have ne: "g \<noteq> []" and h: "\<not> isSpace (hd g)" and l: "\<not> isSpace (last g)"
    by (auto simp: trimmed_def)
  from ne h have d: "dropWhile isSpace g = g" by (cases g) simp_all
  from ne l have "dropWhile isSpace (rev g) = rev g"
    by (cases "rev g") (simp_all add: last_rev [symmetric] hd_rev)
  with d show ?thesis by (simp add: trim_def)
qed

lemma trim_trimmed_space: "trimmed g \<Longrightarrow> trim (g @ '' '') = g"
proof -
  assume t: "trimmed g"
  then have ne: "g \<noteq> []" and h: "\<not> isSpace (hd g)" and l: "\<not> isSpace (last g)"
    by (auto simp: trimmed_def)
  from ne h have d: "dropWhile isSpace (g @ '' '') = g @ '' ''" by (cases g) simp_all
  from ne l have r: "dropWhile isSpace (rev g) = rev g"
    by (cases "rev g") (simp_all add: last_rev [symmetric] hd_rev)
  show ?thesis by (simp add: trim_def d r space_isSpace)
qed

lemma trimmed_join: "trimmed a \<Longrightarrow> trimmed b \<Longrightarrow> trimmed (a @ '' '' @ b)"
  by (simp add: trimmed_def)

lemma trim_not_Nil: "s \<noteq> [] \<Longrightarrow> \<not> isSpace (hd s) \<Longrightarrow> trim s \<noteq> []"
  by (cases s) (auto simp: trim_Nil_iff)

lemma text_trimmed:
  assumes "toUpperCase (trim raw) \<noteq> []"
  shows "trimmed (toUpperCase (trim raw))"
proof -
  from assms have ne: "trim raw \<noteq> []" by (auto simp: toUpperCase_def)
  from trim_ends [OF ne] ne show ?thesis
    by (simp add: trimmed_def toUpperCase_def hd_map last_map up_space)
qed


lemma splitFrom_tight:
  "\<forall>ch\<in>set piece. \<not> isSpace ch \<Longrightarrow> piece \<noteq> [] \<or> (s \<noteq> [] \<and> \<not> isSpace (hd s)) \<Longrightarrow>
   s = [] \<or> \<not> isSpace (last s) \<Longrightarrow> \<forall>w\<in>set (splitFrom piece s). tight w"
proof (induction piece s rule: splitFrom.induct)
  case (1 piece)
  then show ?case by (simp add: tight_def)
next
  case (2 piece c cs)
  show ?case
  proof (cases "isSpace c")
    case True
    with "2.prems" have p: "piece \<noteq> []" by simp
    from "2.prems"(3) True have cs: "cs \<noteq> []" and l: "\<not> isSpace (last cs)"
      by (auto split: if_splits)
    then have "\<not> (\<forall>ch\<in>set cs. isSpace ch)" using last_in_set by blast
    then have d: "dropWhile isSpace cs \<noteq> []" by (simp add: dropWhile_eq_Nil_conv)
    have hd: "\<not> isSpace (hd (dropWhile isSpace cs))" using d by (rule hd_dropWhile)
    have "last (dropWhile isSpace cs) = last cs" using d by (rule last_dropWhile)
    with l have ld: "\<not> isSpace (last (dropWhile isSpace cs))" by simp
    have "\<forall>w\<in>set (splitFrom [] (dropWhile isSpace cs)). tight w"
      using "2.IH"(1) [OF True] d hd ld by simp
    with True p "2.prems"(1) show ?thesis by (simp add: tight_def)
  next
    case False
    from "2.prems"(3) have "cs = [] \<or> \<not> isSpace (last cs)" by (auto split: if_splits)
    with "2.IH"(2) [OF False] "2.prems"(1) False
    have "\<forall>w\<in>set (splitFrom (piece @ [c]) cs). tight w" by simp
    with False show ?thesis by simp
  qed
qed


lemma words_tight:
  assumes "toUpperCase (trim raw) \<noteq> []"
  shows "\<forall>w\<in>set (splitWs (toUpperCase (trim raw))). tight w"
proof -
  from text_trimmed [OF assms] show ?thesis
    unfolding splitWs_def by (intro splitFrom_tight) (simp_all add: trimmed_def)
qed


lemma joinSp_Cons: "ls \<noteq> [] \<Longrightarrow> joinSp (l # ls) = l @ '' '' @ joinSp ls"
  by (cases ls) simp_all

lemma joinSp_append:
  "xs \<noteq> [] \<Longrightarrow> ys \<noteq> [] \<Longrightarrow> joinSp (xs @ ys) = joinSp xs @ '' '' @ joinSp ys"
proof (induction xs)
  case Nil
  then show ?case by simp
next
  case (Cons x xs)
  show ?case
  proof (cases "xs = []")
    case True
    with Cons.prems show ?thesis by (simp add: joinSp_Cons)
  next
    case False
    with Cons show ?thesis by (simp add: joinSp_Cons)
  qed
qed

lemma joinSp_glue: "joinSp (xs @ [a @ '' '' @ b] @ ys) = joinSp (xs @ [a, b] @ ys)"
proof -
  have one: "joinSp ([a @ '' '' @ b] @ ys) = joinSp ([a, b] @ ys)"
    by (cases "ys = []") (simp_all add: joinSp_Cons)
  show ?thesis
  proof (cases "xs = []")
    case True
    with one show ?thesis by simp
  next
    case False
    then have "joinSp (xs @ ([a @ '' '' @ b] @ ys)) = joinSp xs @ '' '' @ joinSp ([a @ '' '' @ b] @ ys)"
      by (intro joinSp_append) simp_all
    moreover from False have "joinSp (xs @ ([a, b] @ ys)) = joinSp xs @ '' '' @ joinSp ([a, b] @ ys)"
      by (intro joinSp_append) simp_all
    ultimately show ?thesis using one by simp
  qed
qed

lemma joinSp_splitFrom: "joinSp (splitFrom piece s) = piece @ collapseWs s"
proof (induction piece s rule: splitFrom.induct)
  case (1 piece)
  show ?case by simp
next
  case (2 piece c cs)
  show ?case
  proof (cases "isSpace c")
    case True
    with "2.IH"(1) show ?thesis by (simp add: joinSp_Cons splitFrom_not_Nil)
  next
    case False
    with "2.IH"(2) show ?thesis by simp
  qed
qed

lemma joinSp_words: "joinSp (splitWs (toUpperCase (trim raw))) = normalized raw"
  by (simp add: splitWs_def normalized_def joinSp_splitFrom)

section \<open>Invariants of \<^verbatim>\<open>calculateLines\<close>\<close>

lemma joinSp_Nil_iff: "\<forall>l\<in>set xs. l \<noteq> [] \<Longrightarrow> joinSp xs = [] \<longleftrightarrow> xs = []"
  by (induction xs rule: joinSp.induct) simp_all

lemma joinSp_snoc_glue: "joinSp (xs @ [a @ '' '' @ b]) = joinSp (xs @ [a, b])"
  using joinSp_glue [of xs a b "[]"] by simp

lemma calcLoop_join:
  "\<forall>w\<in>set ws. w \<noteq> [] \<Longrightarrow> calcLoop m W ls cur ws = Some (ls1, cur1) \<Longrightarrow>
   joinSp (flush ls1 cur1) = joinSp (flush ls cur @ ws)"
proof (induction ws arbitrary: ls cur)
  case Nil
  then show ?case by simp
next
  case (Cons w ws)
  then have w: "w \<noteq> []" and rest: "\<forall>w\<in>set ws. w \<noteq> []" by simp_all
  note IH = Cons.IH [OF rest]
  let ?test = "cur @ (if cur \<noteq> [] then '' '' else []) @ w"
  show ?case
  proof (cases "m ?test > W")
    case over: True
    with Cons.prems(2) have fits: "\<not> m w > W" by (auto simp: Let_def split: if_splits)
    show ?thesis
    proof (cases "cur = []")
      case True
      with over fits Cons.prems(2) have "calcLoop m W (ls @ [w]) cur ws = Some (ls1, cur1)"
        by (simp add: Let_def)
      from IH [OF this] True show ?thesis by (simp add: flush_def)
    next
      case False
      with over fits Cons.prems(2) have "calcLoop m W (ls @ [cur]) w ws = Some (ls1, cur1)"
        by (simp add: Let_def)
      from IH [OF this] False w show ?thesis by (simp add: flush_def)
    qed
  next
    case False
    with Cons.prems(2) have "calcLoop m W ls ?test ws = Some (ls1, cur1)"
      by (simp add: Let_def)
    from IH [OF this] have eq: "joinSp (flush ls1 cur1) = joinSp (flush ls ?test @ ws)" .
    show ?thesis
    proof (cases "cur = []")
      case True
      with eq w show ?thesis by (simp add: flush_def)
    next
      case False
      have "joinSp (ls @ [cur @ '' '' @ w] @ ws) = joinSp (ls @ [cur, w] @ ws)"
        by (rule joinSp_glue)
      with eq False show ?thesis by (simp add: flush_def)
    qed
  qed
qed

lemma calcLoop_width:
  "\<forall>l\<in>set ls. m l \<le> W \<Longrightarrow> cur \<noteq> [] \<longrightarrow> m cur \<le> W \<Longrightarrow>
   calcLoop m W ls cur ws = Some (ls1, cur1) \<Longrightarrow>
   (\<forall>l\<in>set ls1. m l \<le> W) \<and> (cur1 \<noteq> [] \<longrightarrow> m cur1 \<le> W)"
proof (induction ws arbitrary: ls cur)
  case Nil
  then show ?case by simp
next
  case (Cons w ws)
  let ?test = "cur @ (if cur \<noteq> [] then '' '' else []) @ w"
  show ?case
  proof (cases "m ?test > W")
    case over: True
    with Cons.prems(3) have fits: "m w \<le> W" by (auto simp: Let_def split: if_splits)
    show ?thesis
    proof (cases "cur = []")
      case True
      with over fits Cons.prems(3) have "calcLoop m W (ls @ [w]) cur ws = Some (ls1, cur1)"
        by (simp add: Let_def)
      with Cons.IH [of "ls @ [w]" cur] Cons.prems(1,2) fits show ?thesis by simp
    next
      case False
      with over fits Cons.prems(3) have "calcLoop m W (ls @ [cur]) w ws = Some (ls1, cur1)"
        by (simp add: Let_def)
      with Cons.IH [of "ls @ [cur]" w] Cons.prems(1,2) fits False show ?thesis by simp
    qed
  next
    case False
    with Cons.prems(3) have "calcLoop m W ls ?test ws = Some (ls1, cur1)"
      by (simp add: Let_def)
    with Cons.IH [of ls ?test] Cons.prems(1) False show ?thesis by simp
  qed
qed

lemma calcLoop_None:
  "\<forall>pre x. m x \<le> m (pre @ x) \<Longrightarrow> w \<in> set ws \<Longrightarrow> m w > W \<Longrightarrow> calcLoop m W ls cur ws = None"
proof (induction ws arbitrary: ls cur)
  case Nil
  then show ?case by simp
next
  case (Cons x xs)
  let ?test = "cur @ (if cur \<noteq> [] then '' '' else []) @ x"
  show ?case
  proof (cases "m x > W")
    case True
    from Cons.prems(1) have "m x \<le> m ((cur @ (if cur \<noteq> [] then '' '' else [])) @ x)" by blast
    with True have "m ?test > W" by simp
    with True show ?thesis by (simp add: Let_def)
  next
    case False
    with Cons.prems have "w \<in> set xs" by auto
    from Cons.IH [OF Cons.prems(1) this Cons.prems(3)]
    show ?thesis using False by (simp add: Let_def)
  qed
qed

lemma blockAt_lines:
  assumes "blockAt mt words W f = Some r"
  shows "\<exists>ls cur. calcLoop (mt (fontB f)) W [] [] words = Some (ls, cur) \<and>
           blockLines r = flush ls cur"
proof (cases "calcLoop (mt (fontB f)) W [] [] words")
  case None
  with assms show ?thesis
    by (simp add: blockAt_def calculateLines_def measureText_pin Let_def)
next
  case (Some p)
  obtain ls cur where p: "p = (ls, cur)" by (cases p)
  from assms Some p have "blockLines r = flush ls cur"
    by (auto simp: blockAt_def calculateLines_def measureText_pin flush_def Let_def)
  with Some p show ?thesis by simp
qed

lemma blockAt_join:
  assumes "blockAt mt words W f = Some r" and "\<forall>w\<in>set words. w \<noteq> []"
  shows "joinSp (blockLines r) = joinSp words"
proof -
  from blockAt_lines [OF assms(1)] obtain ls cur where
    "calcLoop (mt (fontB f)) W [] [] words = Some (ls, cur)" "blockLines r = flush ls cur"
    by blast
  with calcLoop_join [OF assms(2), of "mt (fontB f)" W "[]" "[]" ls cur]
  show ?thesis by (simp add: flush_def)
qed

lemma blockAt_width:
  assumes "blockAt mt words W f = Some r"
  shows "\<forall>l\<in>set (blockLines r). mt (fontB f) l \<le> W"
proof -
  from blockAt_lines [OF assms(1)] obtain ls cur where
    c: "calcLoop (mt (fontB f)) W [] [] words = Some (ls, cur)" and b: "blockLines r = flush ls cur"
    by blast
  from calcLoop_width [OF _ _ c] b show ?thesis by (auto simp: flush_def)
qed

lemma blockAt_not_Nil:
  assumes "blockAt mt words W f = Some r" and "\<forall>w\<in>set words. w \<noteq> []" and "words \<noteq> []"
  shows "blockLines r \<noteq> []"
proof
  assume "blockLines r = []"
  with blockAt_join [OF assms(1,2)] have "joinSp words = []" by simp
  with joinSp_Nil_iff [OF assms(2)] assms(3) show False by simp
qed

lemma blockAt_None:
  assumes "\<forall>pre x. mt (fontB f) x \<le> mt (fontB f) (pre @ x)" and "w \<in> set words"
    and "mt (fontB f) w > W"
  shows "blockAt mt words W f = None"
  using calcLoop_None [OF assms, of "[]" "[]"]
  by (simp add: blockAt_def calculateLines_def measureText_pin Let_def)

section \<open>Invariants of \<^verbatim>\<open>pushLineWithWordSplit\<close>\<close>

lemma splitChars_lines:
  "splitChars m W ls cl chars =
     (ls @ fst (splitChars m W [] cl chars), snd (splitChars m W [] cl chars))"
proof (induction chars arbitrary: ls cl)
  case Nil
  show ?case by simp
next
  case (Cons ch chars)
  show ?case
  proof (cases "m (cl @ [ch]) > W")
    case True
    show ?thesis
    proof (cases "cl = []")
      case e: True
      with True Cons [of ls "[ch]"] show ?thesis by (simp add: Let_def)
    next
      case False
      with True Cons [of "ls @ [cl]" "[ch]"] Cons [of "[cl]" "[ch]"] show ?thesis
        by (simp add: Let_def)
    qed
  next
    case False
    with Cons [of ls "cl @ [ch]"] show ?thesis by (simp add: Let_def)
  qed
qed

lemma splitChars_concat:
  "splitChars m W ls cl chars = (ls1, cl1) \<Longrightarrow> concat ls1 @ cl1 = concat ls @ cl @ chars"
proof (induction chars arbitrary: ls cl)
  case Nil
  then show ?case by simp
next
  case (Cons ch chars)
  show ?case
  proof (cases "m (cl @ [ch]) > W")
    case True
    with Cons.prems
    have "splitChars m W (if cl \<noteq> [] then ls @ [cl] else ls) [ch] chars = (ls1, cl1)"
      by (simp add: Let_def)
    from Cons.IH [OF this] show ?thesis by simp
  next
    case False
    with Cons.prems have "splitChars m W ls (cl @ [ch]) chars = (ls1, cl1)"
      by (simp add: Let_def)
    from Cons.IH [OF this] show ?thesis by simp
  qed
qed

lemma splitChars_width:
  "\<forall>ch\<in>set chars. m [ch] \<le> W \<Longrightarrow> \<forall>l\<in>set ls. m l \<le> W \<Longrightarrow> cl \<noteq> [] \<longrightarrow> m cl \<le> W \<Longrightarrow>
   splitChars m W ls cl chars = (ls1, cl1) \<Longrightarrow>
   (\<forall>l\<in>set ls1. m l \<le> W) \<and> (cl1 \<noteq> [] \<longrightarrow> m cl1 \<le> W)"
proof (induction chars arbitrary: ls cl)
  case Nil
  then show ?case by simp
next
  case (Cons ch chars)
  from Cons.prems(1) have ch: "m [ch] \<le> W" and rest: "\<forall>ch\<in>set chars. m [ch] \<le> W"
    by simp_all
  show ?case
  proof (cases "m (cl @ [ch]) > W")
    case over: True
    show ?thesis
    proof (cases "cl = []")
      case True
      with over Cons.prems(4) have s: "splitChars m W ls [ch] chars = (ls1, cl1)"
        by (simp add: Let_def)
      from ch have "[ch] \<noteq> [] \<longrightarrow> m [ch] \<le> W" by simp
      from Cons.IH [OF rest Cons.prems(2) this s] show ?thesis .
    next
      case False
      with over Cons.prems(4) have s: "splitChars m W (ls @ [cl]) [ch] chars = (ls1, cl1)"
        by (simp add: Let_def)
      from False Cons.prems(2,3) have l: "\<forall>l\<in>set (ls @ [cl]). m l \<le> W" by simp
      from ch have "[ch] \<noteq> [] \<longrightarrow> m [ch] \<le> W" by simp
      from Cons.IH [OF rest l this s] show ?thesis .
    qed
  next
    case False
    with Cons.prems(4) have s: "splitChars m W ls (cl @ [ch]) chars = (ls1, cl1)"
      by (simp add: Let_def)
    from False have "cl @ [ch] \<noteq> [] \<longrightarrow> m (cl @ [ch]) \<le> W" by simp
    from Cons.IH [OF rest Cons.prems(2) this s] show ?thesis .
  qed
qed

lemma splitChars_inv:
  "\<forall>ch\<in>set chars. P ch \<Longrightarrow> \<forall>l\<in>set ls. l \<noteq> [] \<and> (\<forall>ch\<in>set l. P ch) \<Longrightarrow> \<forall>ch\<in>set cl. P ch \<Longrightarrow>
   splitChars m W ls cl chars = (ls1, cl1) \<Longrightarrow>
   (\<forall>l\<in>set ls1. l \<noteq> [] \<and> (\<forall>ch\<in>set l. P ch)) \<and> (\<forall>ch\<in>set cl1. P ch) \<and>
   (cl \<noteq> [] \<or> chars \<noteq> [] \<longrightarrow> cl1 \<noteq> [])"
proof (induction chars arbitrary: ls cl)
  case Nil
  then show ?case by simp
next
  case (Cons ch chars)
  from Cons.prems(1) have ch: "P ch" and rest: "\<forall>ch\<in>set chars. P ch" by simp_all
  show ?case
  proof (cases "m (cl @ [ch]) > W")
    case over: True
    from ch have c1: "\<forall>x\<in>set [ch]. P x" by simp
    show ?thesis
    proof (cases "cl = []")
      case True
      with over Cons.prems(4) have s: "splitChars m W ls [ch] chars = (ls1, cl1)"
        by (simp add: Let_def)
      from Cons.IH [OF rest Cons.prems(2) c1 s] show ?thesis by simp
    next
      case False
      with over Cons.prems(4) have s: "splitChars m W (ls @ [cl]) [ch] chars = (ls1, cl1)"
        by (simp add: Let_def)
      from False Cons.prems(2,3) have l: "\<forall>l\<in>set (ls @ [cl]). l \<noteq> [] \<and> (\<forall>x\<in>set l. P x)"
        by simp
      from Cons.IH [OF rest l c1 s] show ?thesis by simp
    qed
  next
    case False
    with Cons.prems(4) have s: "splitChars m W ls (cl @ [ch]) chars = (ls1, cl1)"
      by (simp add: Let_def)
    from ch Cons.prems(3) have c1: "\<forall>x\<in>set (cl @ [ch]). P x" by simp
    from Cons.IH [OF rest Cons.prems(2) c1 s] show ?thesis by simp
  qed
qed

lemma maximalRuns_snoc:
  "maximalRuns m W (xs @ [a, b]) \<longleftrightarrow> maximalRuns m W (xs @ [a]) \<and> m (a @ [hd b]) > W"
proof (induction xs)
  case Nil
  show ?case by simp
next
  case (Cons x xs)
  then show ?case by (cases xs) auto
qed

lemma maximalRuns_grow:
  "a \<noteq> [] \<Longrightarrow> maximalRuns m W (xs @ [a @ b]) \<longleftrightarrow> maximalRuns m W (xs @ [a])"
proof (induction xs)
  case Nil
  show ?case by simp
next
  case (Cons x xs)
  then show ?case by (cases xs) auto
qed

lemma splitChars_maximal:
  "maximalRuns m W (ls @ [cl]) \<Longrightarrow> cl = [] \<longrightarrow> ls = [] \<Longrightarrow>
   splitChars m W ls cl chars = (ls1, cl1) \<Longrightarrow> maximalRuns m W (ls1 @ [cl1])"
proof (induction chars arbitrary: ls cl)
  case Nil
  then show ?case by simp
next
  case (Cons ch chars)
  show ?case
  proof (cases "m (cl @ [ch]) > W")
    case over: True
    show ?thesis
    proof (cases "cl = []")
      case True
      with over Cons.prems have "splitChars m W [] [ch] chars = (ls1, cl1)"
        by (simp add: Let_def)
      from Cons.IH [OF _ _ this] show ?thesis by simp
    next
      case False
      with over Cons.prems(3) have s: "splitChars m W (ls @ [cl]) [ch] chars = (ls1, cl1)"
        by (simp add: Let_def)
      have "maximalRuns m W (ls @ [cl, [ch]])"
        using Cons.prems(1) over by (simp add: maximalRuns_snoc)
      then have "maximalRuns m W ((ls @ [cl]) @ [[ch]])" by simp
      from Cons.IH [OF this _ s] show ?thesis by simp
    qed
  next
    case False
    with Cons.prems(3) have s: "splitChars m W ls (cl @ [ch]) chars = (ls1, cl1)"
      by (simp add: Let_def)
    have "maximalRuns m W (ls @ [cl @ [ch]])"
    proof (cases "cl = []")
      case True
      with Cons.prems(2) show ?thesis by simp
    next
      case False
      with Cons.prems(1) show ?thesis by (simp add: maximalRuns_grow)
    qed
    from Cons.IH [OF this _ s] show ?thesis by simp
  qed
qed

section \<open>Invariants of the word loop of App.tsx\<close>

lemma wrapLoopA_pure:
  "wrapLoopA mt F W c ls cur ws =
     (if ws = [] then c else c\<lparr>font := F\<rparr>, wrapPureA (mt F) W ls cur ws)"
proof (induction ws arbitrary: c ls cur)
  case Nil
  show ?case by simp
next
  case (Cons w ws)
  have IH: "wrapLoopA mt F W (c\<lparr>font := F\<rparr>) ls1 cur1 ws =
      (c\<lparr>font := F\<rparr>, wrapPureA (mt F) W ls1 cur1 ws)" for ls1 cur1
    by (simp add: Cons.IH)
  show ?case
    by (simp add: IH measureText_pin Let_def split: prod.splits)
qed


lemma wrapPureA_greedy:
  "\<forall>w\<in>set ws. m w \<le> W \<Longrightarrow> wrapPureA m W ls cur ws = specGreedyLoop m W ls cur ws"
proof (induction ws arbitrary: ls cur)
  case Nil
  show ?case by simp
next
  case (Cons w ws)
  from Cons.prems have w: "m w \<le> W" and rest: "\<forall>w\<in>set ws. m w \<le> W" by simp_all
  note IH = Cons.IH [OF rest]
  show ?case
  proof (cases "cur = []")
    case True
    with w show ?thesis by (simp add: IH Let_def)
  next
    case False
    with w show ?thesis by (simp add: IH Let_def)
  qed
qed

lemma specGreedy_join:
  assumes "\<forall>w\<in>set ws. m w \<le> W" and "\<forall>w\<in>set ws. w \<noteq> []"
  shows "joinSp (specGreedyLines m W ws) = joinSp ws"
proof -
  obtain ls cur where g: "specGreedyLoop m W [] [] ws = (ls, cur)"
    by (cases "specGreedyLoop m W [] [] ws")
  with calcLoop_greedy [OF assms(1), of "[]" "[]"]
  have "calcLoop m W [] [] ws = Some (ls, cur)" by simp
  from calcLoop_join [OF assms(2) this] g show ?thesis
    by (simp add: specGreedyLines_def flush_def)
qed

section \<open>The retrying fitter as a scan\<close>

lemma retryFit_unfold:
  "retryFit mt words W H t c s =
     (if fontSize s > 6 then
        (case passC mt words W (fontSize s) of
           (ls, None) \<Rightarrow>
             retryFit mt words W H (Suc t) (c\<lparr>font := fontB (fontSize s)\<rparr>)
               (s\<lparr>fitLines := ls, fitLineHeight := fontSize s * 1.15, fontSize := fontSize s - 1\<rparr>)
         | (ls, Some currentLine) \<Rightarrow>
             if real (length (ls @ [trim currentLine])) * (fontSize s * 1.15) \<le> H then
               (Suc t, c\<lparr>font := fontB (fontSize s)\<rparr>,
                s\<lparr>fitLines := ls @ [trim currentLine], fitLineHeight := fontSize s * 1.15,
                  blockHeight := real (length (ls @ [trim currentLine])) * (fontSize s * 1.15)\<rparr>)
             else
               retryFit mt words W H (Suc t) (c\<lparr>font := fontB (fontSize s)\<rparr>)
                 (s\<lparr>fitLines := ls @ [trim currentLine], fitLineHeight := fontSize s * 1.15,
                   blockHeight := real (length (ls @ [trim currentLine])) * (fontSize s * 1.15),
                   fontSize := fontSize s - 1\<rparr>))
      else (t, c, s))"
proof (cases "fontSize s > 6")
  case False
  then show ?thesis
    by (subst retryFit.simps, subst findBestFit.simps) simp
next
  case big: True
  obtain ls r where p: "passC mt words W (fontSize s) = (ls, r)"
    by (cases "passC mt words W (fontSize s)")
  then have fl: "fitLoop (measureText mt (c\<lparr>font := fontB (fontSize s)\<rparr>)) W 0 [] [] words = (ls, r)"
    by (simp add: passC_def measureText_pin)
  show ?thesis
  proof (cases r)
    case None
    with big p fl show ?thesis
      by (subst retryFit.simps, subst findBestFit.simps) (simp add: Let_def)
  next
    case (Some cur)
    show ?thesis
    proof (cases "real (length (ls @ [trim cur])) * (fontSize s * 1.15) \<le> H")
      case True
      with big p fl Some show ?thesis
        by (subst retryFit.simps, subst findBestFit.simps) (simp add: Let_def)
    next
      case False
      let ?c1 = "c\<lparr>font := fontB (fontSize s)\<rparr>"
      let ?s1 = "s\<lparr>fitLines := ls @ [trim cur], fitLineHeight := fontSize s * 1.15,
                   blockHeight := real (length (ls @ [trim cur])) * (fontSize s * 1.15),
                   fontSize := fontSize s - 1\<rparr>"
      have eq: "findBestFit mt words W H t c s = findBestFit mt words W H (Suc t) ?c1 ?s1"
        using big fl Some False
        by (subst findBestFit.simps) (simp add: Let_def)
      have "retryFit mt words W H t c s =
          (case findBestFit mt words W H t c s of
             (True, t1, c1, s1) \<Rightarrow> (t1, c1, s1)
           | (False, t1, c1, s1) \<Rightarrow> retryFit mt words W H t1 c1 s1)"
        by (rule retryFit.simps)
      also have "\<dots> =
          (case findBestFit mt words W H (Suc t) ?c1 ?s1 of
             (True, t1, c1, s1) \<Rightarrow> (t1, c1, s1)
           | (False, t1, c1, s1) \<Rightarrow> retryFit mt words W H t1 c1 s1)"
        by (simp only: eq)
      also have "\<dots> = retryFit mt words W H (Suc t) ?c1 ?s1"
        by (rule retryFit.simps [symmetric])
      finally show ?thesis using big p Some False by simp
    qed
  qed
qed

lemma retryFit_induct [consumes 0, case_names floor aborted fits tall]:
  assumes floor: "\<And>c s. \<not> fontSize s > 6 \<Longrightarrow> Q c s"
    and aborted: "\<And>c s ls. fontSize s > 6 \<Longrightarrow> passC mt words W (fontSize s) = (ls, None) \<Longrightarrow>
       Q (c\<lparr>font := fontB (fontSize s)\<rparr>)
         (s\<lparr>fitLines := ls, fitLineHeight := fontSize s * 1.15, fontSize := fontSize s - 1\<rparr>) \<Longrightarrow>
       Q c s"
    and fits: "\<And>c s ls cur. fontSize s > 6 \<Longrightarrow> passC mt words W (fontSize s) = (ls, Some cur) \<Longrightarrow>
       real (length (ls @ [trim cur])) * (fontSize s * 1.15) \<le> H \<Longrightarrow> Q c s"
    and tall: "\<And>c s ls cur. fontSize s > 6 \<Longrightarrow> passC mt words W (fontSize s) = (ls, Some cur) \<Longrightarrow>
       \<not> real (length (ls @ [trim cur])) * (fontSize s * 1.15) \<le> H \<Longrightarrow>
       Q (c\<lparr>font := fontB (fontSize s)\<rparr>)
         (s\<lparr>fitLines := ls @ [trim cur], fitLineHeight := fontSize s * 1.15,
            blockHeight := real (length (ls @ [trim cur])) * (fontSize s * 1.15),
            fontSize := fontSize s - 1\<rparr>) \<Longrightarrow>
       Q c s"
  shows "Q c s"
proof (induction "nat \<lceil>fontSize s - 6\<rceil>" arbitrary: c s rule: less_induct)
  case less
  show ?case
  proof (cases "fontSize s > 6")
    case False
    then show ?thesis by (rule floor)
  next
    case big: True
    have dec: "nat \<lceil>fontSize s - 1 - 6\<rceil> < nat \<lceil>fontSize s - 6\<rceil>"
      using big by (rule ceiling_step_down)
    obtain ls r where p: "passC mt words W (fontSize s) = (ls, r)"
      by (cases "passC mt words W (fontSize s)")
    show ?thesis
    proof (cases r)
      case None
      show ?thesis
      proof (rule aborted [OF big])
        show "passC mt words W (fontSize s) = (ls, None)" using p None by simp
        show "Q (c\<lparr>font := fontB (fontSize s)\<rparr>)
         (s\<lparr>fitLines := ls, fitLineHeight := fontSize s * 1.15, fontSize := fontSize s - 1\<rparr>)"
          by (rule less) (use dec in simp)
      qed
    next
      case (Some cur)
      show ?thesis
      proof (cases "real (length (ls @ [trim cur])) * (fontSize s * 1.15) \<le> H")
        case True
        from big p Some True show ?thesis by (intro fits [of s ls cur]) simp_all
      next
        case False
        show ?thesis
        proof (rule tall [OF big _ False])
          show "passC mt words W (fontSize s) = (ls, Some cur)" using p Some by simp
          show "Q (c\<lparr>font := fontB (fontSize s)\<rparr>)
             (s\<lparr>fitLines := ls @ [trim cur], fitLineHeight := fontSize s * 1.15,
                blockHeight := real (length (ls @ [trim cur])) * (fontSize s * 1.15),
                fontSize := fontSize s - 1\<rparr>)"
            by (rule less) (use dec in simp)
        qed
      qed
    qed
  qed
qed



lemma fitLoop_join:
  "trimmed g \<Longrightarrow> \<forall>w\<in>set ws. tight w \<Longrightarrow>
   fitLoop m W (Suc n) ls (g @ '' '') ws = (ls1, Some cur) \<Longrightarrow>
   joinSp (ls1 @ [trim cur]) = joinSp (ls @ [g] @ ws)"
proof (induction ws arbitrary: n ls g)
  case Nil
  from Nil.prems(1) have "trim (g @ '' '') = g" by (rule trim_trimmed_space)
  with Nil.prems(3) show ?case by auto
next
  case (Cons w ws)
  from Cons.prems(2) have w: "tight w" and rest: "\<forall>w\<in>set ws. tight w" by simp_all
  from Cons.prems(1) have tg: "trim (g @ '' '') = g" by (rule trim_trimmed_space)
  let ?test = "(g @ '' '') @ w @ '' ''"
  show ?case
  proof (cases "m (trim ?test) > W")
    case over: True
    with Cons.prems(3) have fits: "\<not> m w > W" by (auto simp: Let_def split: if_splits)
    with over Cons.prems(3) tg
    have s: "fitLoop m W (Suc (Suc n)) (ls @ [g]) (w @ '' '') ws = (ls1, Some cur)"
      by (simp add: Let_def)
    from Cons.IH [OF tight_trimmed [OF w] rest s] show ?thesis by simp
  next
    case False
    with Cons.prems(3)
    have s: "fitLoop m W (Suc (Suc n)) ls ((g @ '' '' @ w) @ '' '') ws = (ls1, Some cur)"
      by (simp add: Let_def)
    have t: "trimmed (g @ '' '' @ w)"
      using Cons.prems(1) tight_trimmed [OF w] by (rule trimmed_join)
    from Cons.IH [OF t rest s]
    have "joinSp (ls1 @ [trim cur]) = joinSp (ls @ [g @ '' '' @ w] @ ws)" .
    also have "\<dots> = joinSp (ls @ [g, w] @ ws)" by (rule joinSp_glue)
    finally show ?thesis by simp
  qed
qed

lemma passC_first:
  "passC mt (w # ws) W f = fitLoop (mt (fontB f)) W (Suc 0) [] (w @ '' '') ws"
  by (simp add: passC_def Let_def)


lemma passC_join:
  assumes "words \<noteq> []" and "\<forall>w\<in>set words. tight w" and "passC mt words W f = (ls, Some cur)"
  shows "joinSp (ls @ [trim cur]) = joinSp words"
proof -
  from assms(1) obtain w ws where words: "words = w # ws" by (cases words) auto
  with assms(2) have w: "tight w" and rest: "\<forall>w\<in>set ws. tight w" by simp_all
  from assms(3) words
  have "fitLoop (mt (fontB f)) W (Suc 0) [] (w @ '' '') ws = (ls, Some cur)"
    by (simp add: passC_first)
  from fitLoop_join [OF tight_trimmed [OF w] rest this] words show ?thesis by simp
qed


lemma retryFit_first_fit:
  "find (fitsC mt words W H) (scanSizes 6 (fontSize s)) = Some f \<Longrightarrow>
   \<exists>ls cur. passC mt words W f = (ls, Some cur) \<and>
     real (length (ls @ [trim cur])) * (f * 1.15) \<le> H \<and>
     snd (retryFit mt words W H t c s) =
       (c\<lparr>font := fontB f\<rparr>,
        \<lparr>fontSize = f, fitLines = ls @ [trim cur], fitLineHeight = f * 1.15,
         blockHeight = real (length (ls @ [trim cur])) * (f * 1.15)\<rparr>)"
proof (induction c s arbitrary: t
    rule: retryFit_induct [where mt = mt and words = words and W = W and H = H])
  case (floor c s)
  then show ?case by (subst (asm) scanSizes.simps) simp
next
  case (aborted c s ls)
  from aborted(1,2) have nf: "\<not> fitsC mt words W H (fontSize s)" by (simp add: fitsC_def)
  with aborted(1,4) have "find (fitsC mt words W H) (scanSizes 6 (fontSize s - 1)) = Some f"
    by (subst (asm) scanSizes.simps) simp
  with aborted(3) [of "Suc t"] obtain ls1 cur where
    "passC mt words W f = (ls1, Some cur)"
    "real (length (ls1 @ [trim cur])) * (f * 1.15) \<le> H"
    "snd (retryFit mt words W H (Suc t) (c\<lparr>font := fontB (fontSize s)\<rparr>)
       (s\<lparr>fitLines := ls, fitLineHeight := fontSize s * 1.15, fontSize := fontSize s - 1\<rparr>)) =
     (c\<lparr>font := fontB f\<rparr>,
      \<lparr>fontSize = f, fitLines = ls1 @ [trim cur], fitLineHeight = f * 1.15,
       blockHeight = real (length (ls1 @ [trim cur])) * (f * 1.15)\<rparr>)"
    by auto
  with aborted(1,2) show ?case by (subst retryFit_unfold) simp
next
  case (fits c s ls cur)
  from fits(1,2,3) have "fitsC mt words W H (fontSize s)" by (simp add: fitsC_def)
  with fits(1,4) have f: "f = fontSize s" by (subst (asm) scanSizes.simps) simp
  with fits(1,2,3) show ?case by (subst retryFit_unfold) simp
next
  case (tall c s ls cur)
  from tall(1,2,3) have nf: "\<not> fitsC mt words W H (fontSize s)" by (simp add: fitsC_def)
  with tall(1,5) have "find (fitsC mt words W H) (scanSizes 6 (fontSize s - 1)) = Some f"
    by (subst (asm) scanSizes.simps) simp
  with tall(4) [of "Suc t"] obtain ls1 cur1 where
    "passC mt words W f = (ls1, Some cur1)"
    "real (length (ls1 @ [trim cur1])) * (f * 1.15) \<le> H"
    "snd (retryFit mt words W H (Suc t) (c\<lparr>font := fontB (fontSize s)\<rparr>)
       (s\<lparr>fitLines := ls @ [trim cur], fitLineHeight := fontSize s * 1.15,
          blockHeight := real (length (ls @ [trim cur])) * (fontSize s * 1.15),
          fontSize := fontSize s - 1\<rparr>)) =
     (c\<lparr>font := fontB f\<rparr>,
      \<lparr>fontSize = f, fitLines = ls1 @ [trim cur1], fitLineHeight = f * 1.15,
       blockHeight = real (length (ls1 @ [trim cur1])) * (f * 1.15)\<rparr>)"
    by auto
  with tall(1,2,3) show ?case by (subst retryFit_unfold) simp
qed

section \<open>What is painted does not depend on the context\<close>

lemma wrapTextA_lines:
  assumes "toUpperCase (trim raw) \<noteq> []"
  shows "fit (fst (wrapTextA mt c raw cx cy bw bh fSize)) =
     Some \<lparr>fontSize = fSize,
           fitLines = (case wrapPureA (mt (fontA fSize)) (usableA bw) [] []
                             (splitWs (toUpperCase (trim raw))) of
                         (ls, cur) \<Rightarrow> flush ls cur),
           fitLineHeight = fSize * 1.15,
           blockHeight = real (length (case wrapPureA (mt (fontA fSize)) (usableA bw) [] []
                             (splitWs (toUpperCase (trim raw))) of
                         (ls, cur) \<Rightarrow> flush ls cur)) * (fSize * 1.15)\<rparr>"
  using assms by (simp add: wrapTextA_unfold wrapLoopA_pure split: prod.splits)

lemma wrapTextA_render:
  "fst (wrapTextA mt c raw cx cy bw bh fSize) =
     (if toUpperCase (trim raw) = [] then nothing
      else
        (case wrapPureA (mt (fontA fSize)) (usableA bw) [] [] (splitWs (toUpperCase (trim raw))) of
           (lines0, currentLine) \<Rightarrow>
             \<lparr>fit = Some \<lparr>fontSize = fSize, fitLines = flush lines0 currentLine,
                              fitLineHeight = fSize * 1.15,
                              blockHeight = real (length (flush lines0 currentLine)) * (fSize * 1.15)\<rparr>,
               clip = Some (cx - bw / 2 + 5, cy - bh / 2 + 5, bw - 10, bh - 10),
               drawn = paintLines cx
                         (cy - (real (length (flush lines0 currentLine)) * (fSize * 1.15) / 2)
                            + (fSize * 1.15 / 2))
                         (fSize * 1.15) (flush lines0 currentLine)\<rparr>))"
  by (simp add: wrapTextA_unfold wrapLoopA_pure split: prod.splits)

lemma wrapTextB_render:
  "fst (wrapTextB mt c raw cx cy bw bh init) =
     (if toUpperCase (trim raw) = [] then nothing
      else
        (case find (fitsB mt (splitWs (toUpperCase (trim raw))) (usableB bw) (usableB bh))
                (scanSizes 8 init) of
           None \<Rightarrow> nothing
         | Some fs \<Rightarrow>
             (let result = the (blockAt mt (splitWs (toUpperCase (trim raw))) (usableB bw) fs) in
              if blockLines result = [] then nothing
              else
                \<lparr>fit = Some \<lparr>fontSize = fs, fitLines = blockLines result,
                                fitLineHeight = blockLineHeight result,
                                blockHeight = totalHeight result\<rparr>,
                 clip = Some (cx - (bw / 2), cy - (bh / 2), bw, bh),
                 drawn = paintLines cx (cy - (totalHeight result / 2)) (blockLineHeight result)
                           (blockLines result)\<rparr>)))"
proof -
  let ?words = "splitWs (toUpperCase (trim raw))"
  let ?sl = "shrinkLoop mt ?words (usableB bw) (usableB bh) 0 c init"
  obtain res tries c1 where sl: "?sl = (res, tries, c1)" by (cases ?sl)
  have scan: "res = map_option (\<lambda>f. (f, the (blockAt mt ?words (usableB bw) f)))
      (find (fitsB mt ?words (usableB bw) (usableB bh)) (scanSizes 8 init))"
    using shrinkLoop_scan [of mt ?words "usableB bw" "usableB bh" 0 c init] sl by simp
  show ?thesis
    by (cases "find (fitsB mt ?words (usableB bw) (usableB bh)) (scanSizes 8 init)")
       (simp_all add: wrapTextB_unfold sl scan Let_def)
qed

lemma retryFit_ctx:
  "snd (snd (retryFit mt words W H t c s)) = snd (snd (retryFit mt words W H t2 c2 s))"
proof (induction c s arbitrary: t t2 c2
    rule: retryFit_induct [where mt = mt and words = words and W = W and H = H])
  case (floor c s)
  then show ?case by (subst retryFit_unfold, subst (2) retryFit_unfold) simp
next
  case (aborted c s ls)
  from aborted(1,2) aborted(3) [of "Suc t" "Suc t2" "c2\<lparr>font := fontB (fontSize s)\<rparr>"] show ?case
    by (subst retryFit_unfold, subst (2) retryFit_unfold) simp
next
  case (fits c s ls cur)
  then show ?case by (subst retryFit_unfold, subst (2) retryFit_unfold) simp
next
  case (tall c s ls cur)
  from tall(1,2,3) tall(4) [of "Suc t" "Suc t2" "c2\<lparr>font := fontB (fontSize s)\<rparr>"] show ?case
    by (subst retryFit_unfold, subst (2) retryFit_unfold) simp
qed

lemma wrapTextC_render:
  "fst (wrapTextC mt c raw cx cy bw bh init) =
     (if toUpperCase (trim raw) = [] then nothing
      else
        (let s1 = snd (snd (retryFit mt (splitWs (toUpperCase (trim raw))) (usableC bw) (usableC bh)
                         0 defaultCtx
                         \<lparr>fontSize = init, fitLines = [], fitLineHeight = 0, blockHeight = 0\<rparr>))
         in \<lparr>fit = Some s1,
              clip = Some (cx - (bw / 2), cy - (bh / 2), bw, bh),
              drawn = paintLines cx (cy - (blockHeight s1 / 2)) (fitLineHeight s1) (fitLines s1)\<rparr>))"
proof -
  let ?words = "splitWs (toUpperCase (trim raw))"
  let ?s0 = "\<lparr>fontSize = init, fitLines = [], fitLineHeight = 0, blockHeight = 0\<rparr>"
  obtain t1 c1 s1 where r: "retryFit mt ?words (usableC bw) (usableC bh) 0 c ?s0 = (t1, c1, s1)"
    by (cases "retryFit mt ?words (usableC bw) (usableC bh) 0 c ?s0")
  have "snd (snd (retryFit mt ?words (usableC bw) (usableC bh) 0 defaultCtx ?s0)) = s1"
    using retryFit_ctx [of mt ?words "usableC bw" "usableC bh" 0 defaultCtx ?s0 0 c] r by simp
  with r show ?thesis by (simp add: wrapTextC_unfold Let_def)
qed

section \<open>Lines are in capitals and not empty\<close>



section \<open>Auxiliary facts for the claims\<close>

lemma tight_not_Nil: "\<forall>w\<in>set ws. tight w \<Longrightarrow> \<forall>w\<in>set ws. w \<noteq> []"
  by (auto simp: tight_def)

lemma find_first_exists: "\<exists>x\<in>set xs. P x \<Longrightarrow> \<exists>y. find P xs = Some y"
  by (cases "find P xs") (auto simp: find_None_iff)

section \<open>Painting at the first size that fits, and the scan on a grid\<close>

lemma wrapTextB_paints:
  assumes ne: "toUpperCase (trim raw) \<noteq> []"
    and found: "find (fitsB mt (splitWs (toUpperCase (trim raw))) (usableB bw) (usableB bh))
                  (scanSizes 8 init) = Some f"
  shows "\<exists>fB. fit (fst (wrapTextB mt c raw cx cy bw bh init)) = Some fB \<and> fontSize fB = f \<and>
           fitLines fB \<noteq> [] \<and> (\<forall>l\<in>set (fitLines fB). mt (fontB f) l \<le> usableB bw) \<and>
           blockHeight fB \<le> usableB bh \<and>
           map fst (drawn (fst (wrapTextB mt c raw cx cy bw bh init))) = fitLines fB"
proof -
  let ?words = "splitWs (toUpperCase (trim raw))"
  from found have "fitsB mt ?words (usableB bw) (usableB bh) f" by (rule find_Some_fitsB)
  then obtain r where r: "blockAt mt ?words (usableB bw) f = Some r"
    and h: "totalHeight r \<le> usableB bh"
    by (auto simp: fitsB_def split: option.splits)
  have nn: "blockLines r \<noteq> []"
    by (rule blockAt_not_Nil [OF r tight_not_Nil [OF words_tight [OF ne]] splitWs_not_Nil])
  have m: "map fst (paintLines x y lh ls) = ls" for x y lh ls
    by (simp add: paintLines_eq map_nth comp_def)
  from ne found r nn h blockAt_width [OF r] show ?thesis
    by (simp add: wrapTextB_render m)
qed








lemma charWide_suffix: "charWide F x \<le> charWide F (pre @ x) \<longleftrightarrow> 0 \<le> px F \<or> pre = []"
  by (auto simp: charWide_def algebra_simps mult_le_0_iff zero_le_mult_iff)



section \<open>The scan, its largest fitting size and its length\<close>





section \<open>Evaluation on examples\<close>

lemmas text_eval = trim_def toUpperCase_def toUpperChar_def isLower_def isSpace_def splitWs_def

lemmas evalB = wrapTextB_def Let_def text_eval shrinkLoop.simps calculateLines_def
  measureText_def charWide_def fontB_def defaultCtx_def paintLines_def nothing_def

lemmas evalA = wrapTextA_def Let_def text_eval pushLineWithWordSplit_def
  measureText_def charWide_def fontA_def defaultCtx_def paintLines_def nothing_def

lemmas evalC = wrapTextC_def Let_def text_eval retryFit.simps findBestFit.simps
  measureText_def charWide_def fontB_def defaultCtx_def paintLines_def nothing_def

lemmas evalFitsB = fitsB_def blockAt_def calculateLines_def measureText_def charWide_def fontB_def
  defaultCtx_def Let_def usableB_def

lemmas evalDrawB = drawMemeB_def evalB
lemmas evalDrawA = drawMemeA_def evalA
lemmas evalDrawC = drawMemeC_def evalC

text \<open>The retrying fitter on the text \<open>aaaa bb\<close>, a 110 by 350 image and scale 1: it stops at
  the initial size 19, where the first line measures 76 against the usable width 41.8,
  because the width test skips the word with index 0. The size 10 is on its scan, and
  there the pass gives the lines \<open>AAAA\<close> and \<open>BB\<close> of widths 40 and 20 and the block height
  23 against the usable height 133.\<close>

lemma retryFit_stops_at_overflowing_size:
  "fit (fst (drawMemeC charWide 110 350 ''aaaa bb'' '''' 1)) =
     Some \<lparr>fontSize = 19, fitLines = [''AAAA'', ''BB''], fitLineHeight = 21.85, blockHeight = 43.7\<rparr> \<and>
   charWide (fontB 19) ''AAAA'' = 76 \<and>
   usableC (real 110 / 2) = 41.8 \<and>
   usableC (real 350 / 2) = 133 \<and>
   passC charWide [''AAAA'', ''BB''] 41.8 10 = ([''AAAA''], Some ''BB '') \<and>
   charWide (fontB 10) ''AAAA'' = 40 \<and>
   charWide (fontB 10) ''BB'' = 20 \<and>
   real (length [''AAAA'', ''BB'']) * (10 * 1.15) = 23 \<and>
   scanSizes 6 19 = [19, 18, 17, 16, 15, 14, 13, 12, 11, 10, 9, 8, 7]"
proof (intro conjI)
  show "fit (fst (drawMemeC charWide 110 350 ''aaaa bb'' '''' 1)) =
     Some \<lparr>fontSize = 19, fitLines = [''AAAA'', ''BB''], fitLineHeight = 21.85, blockHeight = 43.7\<rparr>"
    by (simp add: evalDrawC)
  show "charWide (fontB 19) ''AAAA'' = 76" by (simp add: charWide_def fontB_def)
  show "usableC (real 110 / 2) = 41.8" by (simp add: usableC_def)
  show "usableC (real 350 / 2) = 133" by (simp add: usableC_def)
  show "passC charWide [''AAAA'', ''BB''] 41.8 10 = ([''AAAA''], Some ''BB '')"
    by (simp add: passC_def Let_def charWide_def fontB_def text_eval)
  show "charWide (fontB 10) ''AAAA'' = 40" by (simp add: charWide_def fontB_def)
  show "charWide (fontB 10) ''BB'' = 20" by (simp add: charWide_def fontB_def)
  show "real (length [''AAAA'', ''BB'']) * (10 * 1.15) = 23" by simp
  show "scanSizes 6 19 = [19, 18, 17, 16, 15, 14, 13, 12, 11, 10, 9, 8, 7]"
    by (simp add: scanSizes.simps)
qed

section \<open>Claims\<close>

text \<open>
  C1 asks that every line of the result is at most as wide as the usable width unless
  characters were split, also when the first word alone is too wide. The retrying fitter
  skips the width test for the word with index 0: for the one-word text \<open>aaaa\<close> on a
  110 by 350 image at scale 1 it paints the line \<open>AAAA\<close> at font size 19, where it measures
  76 against a usable width of 41.8; it has no character splitting. The shrinking fitter
  tests every word and ends at size 9 on the same input, with a width of 36 against 38.5.
\<close>

theorem C1_first_word_overflows:
  "fit (fst (drawMemeC charWide 110 350 ''aaaa'' '''' 1)) =
     Some \<lparr>fontSize = 19, fitLines = [''AAAA''], fitLineHeight = 21.85, blockHeight = 21.85\<rparr> \<and>
   charWide (fontB 19) ''AAAA'' = 76 \<and>
   usableC (real 110 / 2) = 41.8 \<and>
   fit (fst (drawMemeB charWide 110 350 ''aaaa'' '''' 1)) =
     Some \<lparr>fontSize = 9, fitLines = [''AAAA''], fitLineHeight = 10.35, blockHeight = 10.35\<rparr> \<and>
   charWide (fontB 9) ''AAAA'' = 36 \<and>
   usableB (real 110 / 2) = 38.5"
proof (intro conjI)
  show "fit (fst (drawMemeC charWide 110 350 ''aaaa'' '''' 1)) =
     Some \<lparr>fontSize = 19, fitLines = [''AAAA''], fitLineHeight = 21.85, blockHeight = 21.85\<rparr>"
    by (simp add: evalDrawC)
  show "charWide (fontB 19) ''AAAA'' = 76" by (simp add: charWide_def fontB_def)
  show "usableC (real 110 / 2) = 41.8" by (simp add: usableC_def)
  show "fit (fst (drawMemeB charWide 110 350 ''aaaa'' '''' 1)) =
     Some \<lparr>fontSize = 9, fitLines = [''AAAA''], fitLineHeight = 10.35, blockHeight = 10.35\<rparr>"
    by (simp add: evalDrawB)
  show "charWide (fontB 9) ''AAAA'' = 36" by (simp add: charWide_def fontB_def)
  show "usableB (real 110 / 2) = 38.5" by (simp add: usableB_def)
qed

text \<open>
  C2, as the code has it. In the shrinking fitter a word wider than \<open>W\<close> makes
  \<^verbatim>\<open>calculateLines\<close> return null at every font size, the smallest one included (for a
  measurement under which a string is never narrower than one of its suffixes); it never
  splits a word. The wrapper of App.tsx has no size search: it splits such a word by
  characters at the font size it is given. The split is greedy: the pieces it pushes and the
  piece it returns spell the word, no pushed piece is empty, every pushed piece is maximal
  (with the next character it is wider than \<open>W\<close>), and every piece is at most \<open>W\<close> wide
  provided every single character of the word is.
\<close>

theorem C2_breaker_policy:
  "((\<forall>pre x. mt (fontB fSize) x \<le> mt (fontB fSize) (pre @ x)) \<and> w \<in> set words \<and>
    mt (fontB fSize) w > W \<longrightarrow>
      fst (calculateLines mt words W c fSize) = None)
   \<and>
   ((\<forall>pre x. mt F x \<le> mt F (pre @ x)) \<and> mt F word > W \<longrightarrow>
      snd (wrapLoopA mt F W c lines currentLine (word # rest)) =
        (case pushLineWithWordSplit (mt F) W (flush lines currentLine) word of
           (lines1, charLine) \<Rightarrow> snd (wrapLoopA mt F W (c\<lparr>font := F\<rparr>) lines1 charLine rest)))
   \<and>
   (pushLineWithWordSplit m W lines word = (linesAfter, lastPiece) \<longrightarrow>
      (\<exists>pieces. linesAfter = lines @ pieces \<and> concat pieces @ lastPiece = word \<and>
         (\<forall>p\<in>set pieces. p \<noteq> []) \<and> maximalRuns m W (pieces @ [lastPiece]) \<and>
         ((\<forall>ch\<in>set word. m [ch] \<le> W) \<longrightarrow>
            (\<forall>p\<in>set pieces. m p \<le> W) \<and> (lastPiece \<noteq> [] \<longrightarrow> m lastPiece \<le> W))))"
proof (intro conjI impI)
  assume a: "(\<forall>pre x. mt (fontB fSize) x \<le> mt (fontB fSize) (pre @ x)) \<and> w \<in> set words \<and>
    mt (fontB fSize) w > W"
  then have "blockAt mt words W fSize = None"
    by (intro blockAt_None [of mt fSize w]) simp_all
  then show "fst (calculateLines mt words W c fSize) = None"
    by (simp add: calculateLines_eq)
next
  assume a: "(\<forall>pre x. mt F x \<le> mt F (pre @ x)) \<and> mt F word > W"
  then have mono: "\<forall>pre x. mt F x \<le> mt F (pre @ x)" and wide: "mt F word > W" by simp_all
  from mono have "mt F word \<le> mt F ((currentLine @ '' '') @ word)" by blast
  with wide have t: "mt F (currentLine @ '' '' @ word) > W" by simp
  show "snd (wrapLoopA mt F W c lines currentLine (word # rest)) =
        (case pushLineWithWordSplit (mt F) W (flush lines currentLine) word of
           (lines1, charLine) \<Rightarrow> snd (wrapLoopA mt F W (c\<lparr>font := F\<rparr>) lines1 charLine rest))"
    using wide t
    by (cases "currentLine = []")
       (simp_all add: wrapLoopA_pure flush_def Let_def del: wrapLoopA.simps split: prod.splits)
next
  assume a: "pushLineWithWordSplit m W lines word = (linesAfter, lastPiece)"
  obtain pieces cl where s0: "splitChars m W [] [] word = (pieces, cl)"
    by (cases "splitChars m W [] [] word")
  from a have s: "splitChars m W lines [] word = (linesAfter, lastPiece)"
    by (simp add: pushLineWithWordSplit_def)
  from splitChars_lines [of m W lines "[]" word] s s0
  have l: "linesAfter = lines @ pieces" and c: "lastPiece = cl" by simp_all
  from splitChars_concat [OF s0] have cc: "concat pieces @ cl = word" by simp
  from splitChars_inv [where P = "\<lambda>ch. True", OF _ _ _ s0]
  have ne: "\<forall>p\<in>set pieces. p \<noteq> []" by simp
  from splitChars_maximal [OF _ _ s0] have mx: "maximalRuns m W (pieces @ [cl])" by simp
  have wd: "(\<forall>ch\<in>set word. m [ch] \<le> W) \<longrightarrow>
      (\<forall>p\<in>set pieces. m p \<le> W) \<and> (cl \<noteq> [] \<longrightarrow> m cl \<le> W)"
  proof
    assume "\<forall>ch\<in>set word. m [ch] \<le> W"
    from splitChars_width [OF this _ _ s0]
    show "(\<forall>p\<in>set pieces. m p \<le> W) \<and> (cl \<noteq> [] \<longrightarrow> m cl \<le> W)" by simp
  qed
  from l c cc ne mx wd
  show "\<exists>pieces. linesAfter = lines @ pieces \<and> concat pieces @ lastPiece = word \<and>
         (\<forall>p\<in>set pieces. p \<noteq> []) \<and> maximalRuns m W (pieces @ [lastPiece]) \<and>
         ((\<forall>ch\<in>set word. m [ch] \<le> W) \<longrightarrow>
            (\<forall>p\<in>set pieces. m p \<le> W) \<and> (lastPiece \<noteq> [] \<longrightarrow> m lastPiece \<le> W))"
    by blast
qed

theorem C2_breaker_policy_witness:
  "''AAAAAAAA'' \<in> set [''HI'', ''AAAAAAAA''] \<and>
   charWide (fontB 10) ''AAAAAAAA'' > 70 \<and>
   fst (calculateLines charWide [''HI'', ''AAAAAAAA''] 70 defaultCtx 10) = None \<and>
   charWide (fontA 10) ''AAAAAAAA'' > 70 \<and>
   pushLineWithWordSplit (charWide (fontA 10)) 70 [''HI''] ''AAAAAAAA'' = ([''HI'', ''AAAAAAA''], ''A'') \<and>
   snd (wrapLoopA charWide (fontA 10) 70 defaultCtx [] ''HI'' [''AAAAAAAA'']) =
     ([''HI'', ''AAAAAAA''], ''A'') \<and>
   (\<exists>pieces. [''HI'', ''AAAAAAA''] = [''HI''] @ pieces \<and> concat pieces @ ''A'' = ''AAAAAAAA'' \<and>
      maximalRuns (charWide (fontA 10)) 70 (pieces @ [''A'']) \<and>
      list_all (\<lambda>p. charWide (fontA 10) p \<le> 70) pieces) \<and>
   charWide (fontA 10) ''A'' \<le> 70"
proof -
  have monoB: "\<forall>pre x. charWide (fontB 10) x \<le> charWide (fontB 10) (pre @ x)"
    by (simp add: charWide_suffix fontB_def)
  have monoA: "\<forall>pre x. charWide (fontA 10) x \<le> charWide (fontA 10) (pre @ x)"
    by (simp add: charWide_suffix fontA_def)
  have wB: "charWide (fontB 10) ''AAAAAAAA'' > 70" by (simp add: charWide_def fontB_def)
  have wA: "charWide (fontA 10) ''AAAAAAAA'' > 70" by (simp add: charWide_def fontA_def)
  have mem: "''AAAAAAAA'' \<in> set [''HI'', ''AAAAAAAA'']" by simp
  have push: "pushLineWithWordSplit (charWide (fontA 10)) 70 [''HI''] ''AAAAAAAA'' =
      ([''HI'', ''AAAAAAA''], ''A'')"
    by (simp add: pushLineWithWordSplit_def Let_def charWide_def fontA_def)
  have chars: "\<forall>ch\<in>set ''AAAAAAAA''. charWide (fontA 10) [ch] \<le> 70"
    by (simp add: charWide_def fontA_def)
  have fl: "flush [] ''HI'' = [''HI'']" by (simp add: flush_def)
  have rest: "snd (wrapLoopA charWide (fontA 10) 70 c l cl []) = (l, cl)" for c l cl by simp
  note inst = C2_breaker_policy [where mt = charWide and fSize = 10 and w = "''AAAAAAAA''"
      and words = "[''HI'', ''AAAAAAAA'']" and W = 70 and c = defaultCtx and F = "fontA 10"
      and word = "''AAAAAAAA''" and lines = "[]" and currentLine = "''HI''" and rest = "[]"
      and m = "charWide (fontA 10)" and linesAfter = "[''HI'', ''AAAAAAA'']" and lastPiece = "''A''"]
  from inst monoB mem wB have c1: "fst (calculateLines charWide [''HI'', ''AAAAAAAA''] 70 defaultCtx 10) = None"
    by blast
  from inst monoA wA
  have "snd (wrapLoopA charWide (fontA 10) 70 defaultCtx [] ''HI'' (''AAAAAAAA'' # [])) =
        (case pushLineWithWordSplit (charWide (fontA 10)) 70 (flush [] ''HI'') ''AAAAAAAA'' of
           (lines1, charLine) \<Rightarrow>
             snd (wrapLoopA charWide (fontA 10) 70 (defaultCtx\<lparr>font := fontA 10\<rparr>) lines1 charLine []))"
    by blast
  then have c2: "snd (wrapLoopA charWide (fontA 10) 70 defaultCtx [] ''HI'' [''AAAAAAAA'']) =
     ([''HI'', ''AAAAAAA''], ''A'')"
    by (simp only: fl push prod.case rest)
  have thm3: "pushLineWithWordSplit (charWide (fontA 10)) 70 [] ''AAAAAAAA'' = ([''AAAAAAA''], ''A'')"
    by (simp add: pushLineWithWordSplit_def Let_def charWide_def fontA_def)
  from C2_breaker_policy [where m = "charWide (fontA 10)" and W = 70 and lines = "[''HI'']"
      and word = "''AAAAAAAA''" and linesAfter = "[''HI'', ''AAAAAAA'']" and lastPiece = "''A''"]
    push chars
  obtain pieces where p: "[''HI'', ''AAAAAAA''] = [''HI''] @ pieces"
    "concat pieces @ ''A'' = ''AAAAAAAA''"
    "maximalRuns (charWide (fontA 10)) 70 (pieces @ [''A''])"
    "\<forall>p\<in>set pieces. charWide (fontA 10) p \<le> 70"
    "charWide (fontA 10) ''A'' \<le> 70"
    by auto
  from p(4) have "list_all (\<lambda>p. charWide (fontA 10) p \<le> 70) pieces"
    by (simp add: list_all_iff)
  with p(1,2,3) have c3: "\<exists>pieces. [''HI'', ''AAAAAAA''] = [''HI''] @ pieces \<and>
      concat pieces @ ''A'' = ''AAAAAAAA'' \<and>
      maximalRuns (charWide (fontA 10)) 70 (pieces @ [''A'']) \<and>
      list_all (\<lambda>p. charWide (fontA 10) p \<le> 70) pieces"
    by blast
  from mem wB c1 wA push c2 c3 p(5) show ?thesis by blast
qed

text \<open>
  C2 as stated fails on three counts. On a 50 by 350 image at scale 0.5 the shrinking fitter
  tries the sizes 9.5 and 8.5; at 8.5, its smallest, the word \<open>AAAA\<close> measures 34 against
  17.5, \<^verbatim>\<open>calculateLines\<close> returns null again and nothing is painted: there is no fallback to
  character splitting. App.tsx splits \<open>AAAA\<close> into \<open>AAA\<close> and \<open>A\<close> at size 11 without
  trying a smaller size. And at size 44 it paints \<open>A\<close> and \<open>B\<close>, each 44 wide against a
  usable width of 37.345.
\<close>

theorem C2_counterexample:
  "scanSizes 8 (real_of_int \<lfloor>real 350 * 0.055\<rfloor> * 0.5) = [9.5, 8.5] \<and>
   charWide (fontB 8.5) ''AAAA'' = 34 \<and>
   usableB (real 50 / 2) = 17.5 \<and>
   fst (calculateLines charWide [''AAAA''] 17.5 defaultCtx 8.5) = None \<and>
   fst (drawMemeB charWide 50 350 ''aaaa'' '''' 0.5) = nothing \<and>
   map_option fitLines (fit (fst (drawMemeA charWide 110 350 ''aaaa'' '''' 0.5))) =
     Some [''AAA'', ''A''] \<and>
   map_option fitLines (fit (fst (drawMemeA charWide 110 350 ''ab'' '''' 2))) =
     Some [''A'', ''B''] \<and>
   charWide (fontA 44) ''A'' = 44 \<and>
   usableA (real 110 / 2) = 37.345"
proof (intro conjI)
  show "scanSizes 8 (real_of_int \<lfloor>real 350 * 0.055\<rfloor> * 0.5) = [9.5, 8.5]"
    by (simp add: scanSizes.simps)
  show "charWide (fontB 8.5) ''AAAA'' = 34" by (simp add: charWide_def fontB_def)
  show "usableB (real 50 / 2) = 17.5" by (simp add: usableB_def)
  show "fst (calculateLines charWide [''AAAA''] 17.5 defaultCtx 8.5) = None"
    by (simp add: evalB)
  show "fst (drawMemeB charWide 50 350 ''aaaa'' '''' 0.5) = nothing"
    by (simp add: evalDrawB)
  show "map_option fitLines (fit (fst (drawMemeA charWide 110 350 ''aaaa'' '''' 0.5))) =
     Some [''AAA'', ''A'']"
    by (simp add: evalDrawA)
  show "map_option fitLines (fit (fst (drawMemeA charWide 110 350 ''ab'' '''' 2))) =
     Some [''A'', ''B'']"
    by (simp add: evalDrawA)
  show "charWide (fontA 44) ''A'' = 44" by (simp add: charWide_def fontA_def)
  show "usableA (real 110 / 2) = 37.345" by (simp add: usableA_def)
qed




text \<open>
  C4, as the code has it. The shrinking fitter always returns, after at most
  \<open>\<lceil>initialFontSize - 8\<rceil>\<close> calls of \<^verbatim>\<open>calculateLines\<close>. When no font size of its scan gives a
  block without a word that is too wide and within the usable height, it returns with no
  lines and paints nothing: no layout that overflows and no character splitting. When some
  size does, it paints at the first one: at least one line, every line at most as
  wide as the usable width, the block at most as high as the usable height.
\<close>

theorem C4_no_fit_paints_nothing:
  "((\<forall>f\<in>set (scanSizes 8 init).
       \<not> fitsB mt (splitWs (toUpperCase (trim rawText))) (usableB boxWidth) (usableB boxHeight) f) \<longrightarrow>
      fst (wrapTextB mt c rawText centerX centerY boxWidth boxHeight init) = nothing)
   \<and>
   (toUpperCase (trim rawText) \<noteq> [] \<and>
    find (fitsB mt (splitWs (toUpperCase (trim rawText))) (usableB boxWidth) (usableB boxHeight))
      (scanSizes 8 init) = Some f \<longrightarrow>
      (\<exists>fB. fit (fst (wrapTextB mt c rawText centerX centerY boxWidth boxHeight init)) = Some fB \<and>
         fontSize fB = f \<and> fitLines fB \<noteq> [] \<and>
         (\<forall>l\<in>set (fitLines fB). mt (fontB f) l \<le> usableB boxWidth) \<and>
         blockHeight fB \<le> usableB boxHeight \<and>
         map fst (drawn (fst (wrapTextB mt c rawText centerX centerY boxWidth boxHeight init))) =
           fitLines fB))
   \<and>
   fst (snd (shrinkLoop mt (splitWs (toUpperCase (trim rawText))) (usableB boxWidth)
               (usableB boxHeight) 0 c init)) \<le> nat \<lceil>init - 8\<rceil>"
proof (intro conjI impI)
  let ?words = "splitWs (toUpperCase (trim rawText))"
  assume "\<forall>f\<in>set (scanSizes 8 init). \<not> fitsB mt ?words (usableB boxWidth) (usableB boxHeight) f"
  then have "find (fitsB mt ?words (usableB boxWidth) (usableB boxHeight)) (scanSizes 8 init) = None"
    by (simp add: find_None_iff)
  then show "fst (wrapTextB mt c rawText centerX centerY boxWidth boxHeight init) = nothing"
    by (simp add: wrapTextB_render)
next
  let ?words = "splitWs (toUpperCase (trim rawText))"
  assume a: "toUpperCase (trim rawText) \<noteq> [] \<and>
    find (fitsB mt ?words (usableB boxWidth) (usableB boxHeight)) (scanSizes 8 init) = Some f"
  then have ne: "toUpperCase (trim rawText) \<noteq> []"
    and found: "find (fitsB mt ?words (usableB boxWidth) (usableB boxHeight)) (scanSizes 8 init) = Some f"
    by simp_all
  show "\<exists>fB. fit (fst (wrapTextB mt c rawText centerX centerY boxWidth boxHeight init)) = Some fB \<and>
         fontSize fB = f \<and> fitLines fB \<noteq> [] \<and>
         (\<forall>l\<in>set (fitLines fB). mt (fontB f) l \<le> usableB boxWidth) \<and>
         blockHeight fB \<le> usableB boxHeight \<and>
         map fst (drawn (fst (wrapTextB mt c rawText centerX centerY boxWidth boxHeight init))) =
           fitLines fB"
    by (rule wrapTextB_paints [OF ne found])
next
  show "fst (snd (shrinkLoop mt (splitWs (toUpperCase (trim rawText))) (usableB boxWidth)
               (usableB boxHeight) 0 c init)) \<le> nat \<lceil>init - 8\<rceil>"
    using shrinkLoop_tries [of mt "splitWs (toUpperCase (trim rawText))" "usableB boxWidth"
        "usableB boxHeight" 0 c init]
    by (simp add: length_scanSizes)
qed

theorem C4_no_fit_paints_nothing_witness:
  "scanSizes 8 11 = [11, 10, 9] \<and>
   \<not> fitsB charWide [''A'', ''B'', ''C'', ''D'', ''E'', ''F'', ''G'', ''H''] (usableB 15) (usableB 100) 11 \<and>
   \<not> fitsB charWide [''A'', ''B'', ''C'', ''D'', ''E'', ''F'', ''G'', ''H''] (usableB 15) (usableB 100) 10 \<and>
   \<not> fitsB charWide [''A'', ''B'', ''C'', ''D'', ''E'', ''F'', ''G'', ''H''] (usableB 15) (usableB 100) 9 \<and>
   fst (wrapTextB charWide defaultCtx ''a b c d e f g h'' 22.5 50 15 100 11) = nothing \<and>
   find (fitsB charWide [''HI'', ''YOU''] (usableB 100) (usableB 100)) (scanSizes 8 20) = Some 20 \<and>
   map_option fitLines (fit (fst (wrapTextB charWide defaultCtx ''hi you'' 150 50 100 100 20))) =
     Some [''HI'', ''YOU''] \<and>
   fst (snd (shrinkLoop charWide [''A'', ''B'', ''C'', ''D'', ''E'', ''F'', ''G'', ''H''] (usableB 15)
               (usableB 100) 0 defaultCtx 11)) \<le> 3"
proof -
  let ?ws = "[''A'', ''B'', ''C'', ''D'', ''E'', ''F'', ''G'', ''H'']"
  have t: "toUpperCase (trim ''a b c d e f g h'') = ''A B C D E F G H''" by (simp add: text_eval)
  have s: "splitWs ''A B C D E F G H'' = ?ws" by (simp add: text_eval)
  have sc: "scanSizes 8 11 = [11, 10, 9]" by (simp add: scanSizes.simps)
  have n11: "\<not> fitsB charWide ?ws (usableB 15) (usableB 100) 11" by (simp add: evalFitsB)
  have n10: "\<not> fitsB charWide ?ws (usableB 15) (usableB 100) 10" by (simp add: evalFitsB)
  have n9: "\<not> fitsB charWide ?ws (usableB 15) (usableB 100) 9" by (simp add: evalFitsB)
  have h1: "\<forall>f\<in>set (scanSizes 8 11).
      \<not> fitsB charWide (splitWs (toUpperCase (trim ''a b c d e f g h''))) (usableB 15) (usableB 100) f"
    using n11 n10 n9 by (simp add: t s sc)
  from C4_no_fit_paints_nothing [where mt = charWide and rawText = "''a b c d e f g h''"
      and init = 11 and boxWidth = 15 and boxHeight = 100 and c = defaultCtx and centerX = "22.5"
      and centerY = 50] h1
  have c1: "fst (wrapTextB charWide defaultCtx ''a b c d e f g h'' 22.5 50 15 100 11) = nothing"
    and c3: "fst (snd (shrinkLoop charWide ?ws (usableB 15) (usableB 100) 0 defaultCtx 11)) \<le> 3"
    by (simp_all add: t s)
  have t2: "toUpperCase (trim ''hi you'') = ''HI YOU''" by (simp add: text_eval)
  have s2: "splitWs ''HI YOU'' = [''HI'', ''YOU'']" by (simp add: text_eval)
  have sc2: "scanSizes 8 20 = 20 # scanSizes 8 19" by (subst scanSizes.simps) simp
  have f20: "fitsB charWide [''HI'', ''YOU''] (usableB 100) (usableB 100) 20" by (simp add: evalFitsB)
  then have h2: "find (fitsB charWide [''HI'', ''YOU''] (usableB 100) (usableB 100)) (scanSizes 8 20) =
      Some 20"
    by (simp add: sc2)
  have b20: "map_option blockLines (blockAt charWide [''HI'', ''YOU''] (usableB 100) 20) =
      Some [''HI'', ''YOU'']"
    by (simp add: evalFitsB)
  from C4_no_fit_paints_nothing [where mt = charWide and rawText = "''hi you''"
      and init = 20 and boxWidth = 100 and boxHeight = 100 and c = defaultCtx and centerX = 150
      and centerY = 50 and f = 20] h2
  obtain fB where "fit (fst (wrapTextB charWide defaultCtx ''hi you'' 150 50 100 100 20)) = Some fB"
    by (auto simp: t2 s2)
  then have c2: "map_option fitLines (fit (fst (wrapTextB charWide defaultCtx ''hi you'' 150 50 100 100 20))) =
     Some [''HI'', ''YOU'']"
    by (auto simp: evalB)
  from sc n11 n10 n9 c1 h2 c2 c3 show ?thesis by blast
qed

text \<open>
  C4 as stated fails: for the text \<open>a b c d e f g h\<close> on a 30 by 200 image at scale 1 the
  shrinking fitter tries the sizes 11, 10 and 9, finds a word too wide or the block too
  high each time, and paints nothing.
\<close>

theorem C4_counterexample:
  "toUpperCase (trim ''a b c d e f g h'') = ''A B C D E F G H'' \<and>
   fst (drawMemeB charWide 30 200 ''a b c d e f g h'' '''' 1) = nothing \<and>
   fit nothing = None \<and> drawn nothing = []"
proof (intro conjI)
  show "toUpperCase (trim ''a b c d e f g h'') = ''A B C D E F G H''" by (simp add: text_eval)
  show "fst (drawMemeB charWide 30 200 ''a b c d e f g h'' '''' 1) = nothing"
    by (simp add: evalDrawB)
  show "fit nothing = None" by (simp add: nothing_def)
  show "drawn nothing = []" by (simp add: nothing_def)
qed

text \<open>
  C5. At a font size at which no word alone is wider than the usable width, the line breakers
  of the shrinking fitter (\<^verbatim>\<open>calculateLines\<close>) and of App.tsx (the word loop of \<^verbatim>\<open>wrapText\<close>) return
  exactly the lines of the greedy rule of the specification.
\<close>

theorem C5_greedy_rule:
  "((\<forall>w\<in>set words. mt (fontB fSize) w \<le> W) \<longrightarrow>
      fst (calculateLines mt words W c fSize) =
        Some \<lparr>blockLines = specGreedyLines (mt (fontB fSize)) W words,
              totalHeight = real (length (specGreedyLines (mt (fontB fSize)) W words)) * (fSize * 1.15),
              blockLineHeight = fSize * 1.15\<rparr>)
   \<and>
   (toUpperCase (trim raw) \<noteq> [] \<and>
    (\<forall>w\<in>set (splitWs (toUpperCase (trim raw))). mt (fontA fSize) w \<le> usableA bw) \<longrightarrow>
      map_option fitLines (fit (fst (wrapTextA mt c raw cx cy bw bh fSize))) =
        Some (specGreedyLines (mt (fontA fSize)) (usableA bw) (splitWs (toUpperCase (trim raw)))))"
proof (intro conjI impI)
  assume "\<forall>w\<in>set words. mt (fontB fSize) w \<le> W"
  then have "calcLoop (mt (fontB fSize)) W [] [] words =
      Some (specGreedyLoop (mt (fontB fSize)) W [] [] words)"
    by (rule calcLoop_greedy)
  then show "fst (calculateLines mt words W c fSize) =
        Some \<lparr>blockLines = specGreedyLines (mt (fontB fSize)) W words,
              totalHeight = real (length (specGreedyLines (mt (fontB fSize)) W words)) * (fSize * 1.15),
              blockLineHeight = fSize * 1.15\<rparr>"
    by (simp add: calculateLines_def measureText_pin specGreedyLines_def flush_def Let_def
          split: prod.splits)
next
  assume a: "toUpperCase (trim raw) \<noteq> [] \<and>
    (\<forall>w\<in>set (splitWs (toUpperCase (trim raw))). mt (fontA fSize) w \<le> usableA bw)"
  then have "wrapLoopA mt (fontA fSize) (usableA bw) (c\<lparr>font := fontA fSize\<rparr>) [] []
        (splitWs (toUpperCase (trim raw))) =
      (c\<lparr>font := fontA fSize\<rparr>,
       specGreedyLoop (mt (fontA fSize)) (usableA bw) [] [] (splitWs (toUpperCase (trim raw))))"
    by (simp add: wrapLoopA_greedy)
  with a show "map_option fitLines (fit (fst (wrapTextA mt c raw cx cy bw bh fSize))) =
        Some (specGreedyLines (mt (fontA fSize)) (usableA bw) (splitWs (toUpperCase (trim raw))))"
    by (simp add: wrapTextA_unfold specGreedyLines_def split: prod.splits)
qed

theorem C5_greedy_rule_witness:
  "charWide (fontB 10) ''HI'' \<le> 70 \<and> charWide (fontB 10) ''YOU'' \<le> 70 \<and>
   charWide (fontB 10) ''ALL'' \<le> 70 \<and>
   fst (calculateLines charWide [''HI'', ''YOU'', ''ALL''] 70 defaultCtx 10) =
     Some \<lparr>blockLines = [''HI YOU'', ''ALL''], totalHeight = 23, blockLineHeight = 11.5\<rparr> \<and>
   specGreedyLines (charWide (fontB 10)) 70 [''HI'', ''YOU'', ''ALL''] = [''HI YOU'', ''ALL''] \<and>
   toUpperCase (trim ''hi you all'') \<noteq> [] \<and>
   splitWs (toUpperCase (trim ''hi you all'')) = [''HI'', ''YOU'', ''ALL''] \<and>
   charWide (fontA 10) ''HI'' \<le> usableA 100 \<and> charWide (fontA 10) ''YOU'' \<le> usableA 100 \<and>
   charWide (fontA 10) ''ALL'' \<le> usableA 100 \<and>
   map_option fitLines (fit (fst (wrapTextA charWide defaultCtx ''hi you all'' 150 50 100 100 10))) =
     Some [''HI YOU'', ''ALL'']"
proof -
  have g: "specGreedyLines (charWide (fontB 10)) 70 [''HI'', ''YOU'', ''ALL''] = [''HI YOU'', ''ALL'']"
    by (simp add: specGreedyLines_def Let_def charWide_def fontB_def flush_def)
  have gA: "specGreedyLines (charWide (fontA 10)) (usableA 100) [''HI'', ''YOU'', ''ALL''] =
      [''HI YOU'', ''ALL'']"
    by (simp add: specGreedyLines_def Let_def charWide_def fontA_def flush_def usableA_def)
  have t: "toUpperCase (trim ''hi you all'') = ''HI YOU ALL''"
    by (simp add: text_eval)
  have s: "splitWs ''HI YOU ALL'' = [''HI'', ''YOU'', ''ALL'']"
    by (simp add: text_eval)
  have hB: "\<forall>w\<in>set [''HI'', ''YOU'', ''ALL'']. charWide (fontB 10) w \<le> 70"
    by (simp add: charWide_def fontB_def)
  have hA: "\<forall>w\<in>set [''HI'', ''YOU'', ''ALL'']. charWide (fontA 10) w \<le> usableA 100"
    by (simp add: charWide_def fontA_def usableA_def)
  from C5_greedy_rule [where words = "[''HI'', ''YOU'', ''ALL'']" and mt = charWide
      and fSize = 10 and W = 70 and raw = "''hi you all''" and bw = 100 and c = defaultCtx
      and cx = 150 and cy = 50 and bh = 100] hB hA
  show ?thesis by (simp add: g gA t s)
qed

text \<open>
  C6. When a fit result is painted, its block height is the number of lines times the line
  height, line \<open>i\<close> is drawn at \<open>startY + i * lineHeight\<close> with the horizontal position
  \<open>centerX\<close> and the alignment \<^verbatim>\<open>center\<close>, where \<open>startY = centerY - blockHeight / 2\<close> under the
  baseline \<^verbatim>\<open>top\<close> (shrinking fitter) and \<open>centerY - blockHeight / 2 + lineHeight / 2\<close> under the
  baseline \<^verbatim>\<open>middle\<close> (App.tsx); in both cases the vertical midpoint of the block is
  \<open>centerY\<close>.
\<close>

theorem C6_layout_centred:
  "(fit (fst (wrapTextB mt c raw cx cy bw bh init)) = Some fB \<longrightarrow>
      blockHeight fB = real (length (fitLines fB)) * fitLineHeight fB \<and>
      drawn (fst (wrapTextB mt c raw cx cy bw bh init)) =
        map (\<lambda>i. (fitLines fB ! i, cx, (cy - blockHeight fB / 2) + real i * fitLineHeight fB))
          [0..<length (fitLines fB)] \<and>
      textAlign (snd (wrapTextB mt c raw cx cy bw bh init)) = ''center'' \<and>
      textBaseline (snd (wrapTextB mt c raw cx cy bw bh init)) = ''top'' \<and>
      blockMid ''top'' (fitLineHeight fB) (blockHeight fB) (cy - blockHeight fB / 2) = cy)
   \<and>
   (fit (fst (wrapTextA mt c raw cx cy bw bh fSize)) = Some fA \<longrightarrow>
      blockHeight fA = real (length (fitLines fA)) * fitLineHeight fA \<and>
      drawn (fst (wrapTextA mt c raw cx cy bw bh fSize)) =
        map (\<lambda>i. (fitLines fA ! i, cx,
                   (cy - blockHeight fA / 2 + fitLineHeight fA / 2) + real i * fitLineHeight fA))
          [0..<length (fitLines fA)] \<and>
      textAlign (snd (wrapTextA mt c raw cx cy bw bh fSize)) = ''center'' \<and>
      textBaseline (snd (wrapTextA mt c raw cx cy bw bh fSize)) = ''middle'' \<and>
      blockMid ''middle'' (fitLineHeight fA) (blockHeight fA)
        (cy - blockHeight fA / 2 + fitLineHeight fA / 2) = cy)"
proof (intro conjI impI)
  assume a: "fit (fst (wrapTextB mt c raw cx cy bw bh init)) = Some fB"
  from wrapTextB_Some [OF a] obtain r where
    r: "blockAt mt (splitWs (toUpperCase (trim raw))) (usableB bw) (fontSize fB) = Some r"
    and f: "fB = \<lparr>fontSize = fontSize fB, fitLines = blockLines r,
                 fitLineHeight = blockLineHeight r, blockHeight = totalHeight r\<rparr>"
    and d: "drawn (fst (wrapTextB mt c raw cx cy bw bh init)) =
             paintLines cx (cy - (totalHeight r / 2)) (blockLineHeight r) (blockLines r)"
    and t: "textAlign (snd (wrapTextB mt c raw cx cy bw bh init)) = ''center''"
           "textBaseline (snd (wrapTextB mt c raw cx cy bw bh init)) = ''top''"
    by blast
  have sel: "fitLines fB = blockLines r" "fitLineHeight fB = blockLineHeight r"
    "blockHeight fB = totalHeight r"
    by (subst f, simp)+
  show "blockHeight fB = real (length (fitLines fB)) * fitLineHeight fB"
    using blockAt_Some(1) [OF r] by (simp add: sel)
  show "drawn (fst (wrapTextB mt c raw cx cy bw bh init)) =
        map (\<lambda>i. (fitLines fB ! i, cx, (cy - blockHeight fB / 2) + real i * fitLineHeight fB))
          [0..<length (fitLines fB)]"
    by (simp add: d sel paintLines_eq)
  show "textAlign (snd (wrapTextB mt c raw cx cy bw bh init)) = ''center''" by (rule t)
  show "textBaseline (snd (wrapTextB mt c raw cx cy bw bh init)) = ''top''" by (rule t)
  show "blockMid ''top'' (fitLineHeight fB) (blockHeight fB) (cy - blockHeight fB / 2) = cy"
    by (simp add: blockMid_def)
next
  assume a: "fit (fst (wrapTextA mt c raw cx cy bw bh fSize)) = Some fA"
  then have ne: "toUpperCase (trim raw) \<noteq> []"
    by (cases "toUpperCase (trim raw) = []") (simp_all add: wrapTextA_unfold nothing_def)
  obtain c2 lines0 cur where
    wl: "wrapLoopA mt (fontA fSize) (usableA bw) (c\<lparr>font := fontA fSize\<rparr>) [] []
           (splitWs (toUpperCase (trim raw))) = (c2, lines0, cur)"
    by (cases "wrapLoopA mt (fontA fSize) (usableA bw) (c\<lparr>font := fontA fSize\<rparr>) [] []
           (splitWs (toUpperCase (trim raw)))")
  from a ne wl have f: "fA = \<lparr>fontSize = fSize, fitLines = flush lines0 cur,
      fitLineHeight = fSize * 1.15,
      blockHeight = real (length (flush lines0 cur)) * (fSize * 1.15)\<rparr>"
    by (simp add: wrapTextA_unfold)
  have sel: "fitLines fA = flush lines0 cur" "fitLineHeight fA = fSize * 1.15"
    "blockHeight fA = real (length (flush lines0 cur)) * (fSize * 1.15)"
    by (subst f, simp)+
  show "blockHeight fA = real (length (fitLines fA)) * fitLineHeight fA"
    by (simp add: sel)
  show "drawn (fst (wrapTextA mt c raw cx cy bw bh fSize)) =
        map (\<lambda>i. (fitLines fA ! i, cx,
                   (cy - blockHeight fA / 2 + fitLineHeight fA / 2) + real i * fitLineHeight fA))
          [0..<length (fitLines fA)]"
    using ne wl by (simp add: wrapTextA_unfold sel paintLines_eq)
  show "textAlign (snd (wrapTextA mt c raw cx cy bw bh fSize)) = ''center''"
    using ne wl by (simp add: wrapTextA_unfold)
  show "textBaseline (snd (wrapTextA mt c raw cx cy bw bh fSize)) = ''middle''"
    using ne wl by (simp add: wrapTextA_unfold)
  show "blockMid ''middle'' (fitLineHeight fA) (blockHeight fA)
        (cy - blockHeight fA / 2 + fitLineHeight fA / 2) = cy"
    by (simp add: blockMid_def)
qed

theorem C6_layout_centred_witness:
  "fit (fst (wrapTextB charWide defaultCtx ''hi you'' 150 50 100 100 20)) =
     Some \<lparr>fontSize = 20, fitLines = [''HI'', ''YOU''], fitLineHeight = 23, blockHeight = 46\<rparr> \<and>
   fit (fst (wrapTextA charWide defaultCtx ''hi you'' 150 50 100 100 20)) =
     Some \<lparr>fontSize = 20, fitLines = [''HI'', ''YOU''], fitLineHeight = 23, blockHeight = 46\<rparr> \<and>
   drawn (fst (wrapTextB charWide defaultCtx ''hi you'' 150 50 100 100 20)) =
     [(''HI'', 150, 50 - 46 / 2), (''YOU'', 150, 50 - 46 / 2 + 23)] \<and>
   drawn (fst (wrapTextA charWide defaultCtx ''hi you'' 150 50 100 100 20)) =
     [(''HI'', 150, 50 - 46 / 2 + 23 / 2), (''YOU'', 150, 50 - 46 / 2 + 23 / 2 + 23)] \<and>
   blockMid ''top'' 23 46 (50 - 46 / 2) = 50 \<and>
   blockMid ''middle'' 23 46 (50 - 46 / 2 + 23 / 2) = 50"
proof -
  have hB: "fit (fst (wrapTextB charWide defaultCtx ''hi you'' 150 50 100 100 20)) =
     Some \<lparr>fontSize = 20, fitLines = [''HI'', ''YOU''], fitLineHeight = 23, blockHeight = 46\<rparr>"
    by (simp add: evalB)
  have hA: "fit (fst (wrapTextA charWide defaultCtx ''hi you'' 150 50 100 100 20)) =
     Some \<lparr>fontSize = 20, fitLines = [''HI'', ''YOU''], fitLineHeight = 23, blockHeight = 46\<rparr>"
    by (simp add: evalA)
  have up: "[0..<2] = [0, 1]" by (simp add: upt_rec)
  from C6_layout_centred [of charWide defaultCtx "''hi you''" 150 50 100 100 20
      "\<lparr>fontSize = 20, fitLines = [''HI'', ''YOU''], fitLineHeight = 23, blockHeight = 46\<rparr>" 20
      "\<lparr>fontSize = 20, fitLines = [''HI'', ''YOU''], fitLineHeight = 23, blockHeight = 46\<rparr>"]
    hB hA
  show ?thesis by (simp add: up)
qed




text \<open>
  C8. The fitter is deterministic. As a function of its arguments this holds by construction;
  the only state a call can see besides them is the drawing context left by earlier calls,
  and what is computed and painted (font size, lines, line height, block height, clip and
  the positions of the lines) does not depend on it: two calls with the same text, box, font
  size and measurement give the same result from any two contexts, in particular a second
  call from the context the first one left.
\<close>

theorem C8_deterministic:
  "fst (wrapTextA mt c1 rawText centerX centerY boxWidth boxHeight fSize) =
   fst (wrapTextA mt c2 rawText centerX centerY boxWidth boxHeight fSize) \<and>
   fst (wrapTextB mt c1 rawText centerX centerY boxWidth boxHeight fSize) =
   fst (wrapTextB mt c2 rawText centerX centerY boxWidth boxHeight fSize) \<and>
   fst (wrapTextC mt c1 rawText centerX centerY boxWidth boxHeight fSize) =
   fst (wrapTextC mt c2 rawText centerX centerY boxWidth boxHeight fSize) \<and>
   fst (wrapTextA mt (snd (wrapTextA mt c1 rawText centerX centerY boxWidth boxHeight fSize))
          rawText centerX centerY boxWidth boxHeight fSize) =
   fst (wrapTextA mt c1 rawText centerX centerY boxWidth boxHeight fSize) \<and>
   fst (wrapTextB mt (snd (wrapTextB mt c1 rawText centerX centerY boxWidth boxHeight fSize))
          rawText centerX centerY boxWidth boxHeight fSize) =
   fst (wrapTextB mt c1 rawText centerX centerY boxWidth boxHeight fSize)"
  by (simp only: wrapTextA_render wrapTextB_render wrapTextC_render)



text \<open>
  C10. When the greedy wrap succeeds without character splitting, the lines of the result
  joined with single spaces are the normalized text (trimmed, in capitals, runs of white
  space collapsed), so no word is dropped, repeated or moved. Success means: in App.tsx no
  word alone is wider than the usable width; in the shrinking fitter a result is painted; in
  the retrying fitter some font size of the scan passes the loop to the end with a block that
  fits the height. The same holds for every single pass of a line breaker that runs to the
  end: \<^verbatim>\<open>calculateLines\<close> when it does not return null, and the loop of \<^verbatim>\<open>findBestFit\<close> when it
  does not leave through \<^verbatim>\<open>return false\<close>.
\<close>

theorem C10_lines_spell_text:
  "(toUpperCase (trim rawText) \<noteq> [] \<and>
    (\<forall>w\<in>set (splitWs (toUpperCase (trim rawText))). mt (fontA fSize) w \<le> usableA boxWidth) \<and>
    fit (fst (wrapTextA mt c rawText centerX centerY boxWidth boxHeight fSize)) = Some fA \<longrightarrow>
      joinSp (fitLines fA) = normalized rawText)
   \<and>
   (fit (fst (wrapTextB mt c rawText centerX centerY boxWidth boxHeight fSize)) = Some fB \<longrightarrow>
      joinSp (fitLines fB) = normalized rawText)
   \<and>
   (toUpperCase (trim rawText) \<noteq> [] \<and>
    (\<exists>f\<in>set (scanSizes 6 fSize).
       fitsC mt (splitWs (toUpperCase (trim rawText))) (usableC boxWidth) (usableC boxHeight) f) \<and>
    fit (fst (wrapTextC mt c rawText centerX centerY boxWidth boxHeight fSize)) = Some fC \<longrightarrow>
      joinSp (fitLines fC) = normalized rawText)
   \<and>
   (toUpperCase (trim rawText) \<noteq> [] \<and>
    fst (calculateLines mt (splitWs (toUpperCase (trim rawText))) W c fSize) = Some result \<longrightarrow>
      joinSp (blockLines result) = normalized rawText)
   \<and>
   (toUpperCase (trim rawText) \<noteq> [] \<and>
    fitLoop m W 0 [] [] (splitWs (toUpperCase (trim rawText))) = (finished, Some currentLine) \<longrightarrow>
      joinSp (finished @ [trim currentLine]) = normalized rawText)"
proof (intro conjI impI)
  let ?words = "splitWs (toUpperCase (trim rawText))"
  assume a: "toUpperCase (trim rawText) \<noteq> [] \<and>
    (\<forall>w\<in>set ?words. mt (fontA fSize) w \<le> usableA boxWidth) \<and>
    fit (fst (wrapTextA mt c rawText centerX centerY boxWidth boxHeight fSize)) = Some fA"
  then have ne: "toUpperCase (trim rawText) \<noteq> []"
    and fits: "\<forall>w\<in>set ?words. mt (fontA fSize) w \<le> usableA boxWidth"
    and f: "fit (fst (wrapTextA mt c rawText centerX centerY boxWidth boxHeight fSize)) = Some fA"
    by simp_all
  from f ne have "fitLines fA =
      (case wrapPureA (mt (fontA fSize)) (usableA boxWidth) [] [] ?words of
         (ls, cur) \<Rightarrow> flush ls cur)"
    by (auto simp: wrapTextA_lines)
  also have "\<dots> = specGreedyLines (mt (fontA fSize)) (usableA boxWidth) ?words"
    by (simp add: wrapPureA_greedy [OF fits] specGreedyLines_def)
  finally have "joinSp (fitLines fA) = joinSp ?words"
    using specGreedy_join [OF fits tight_not_Nil [OF words_tight [OF ne]]] by simp
  then show "joinSp (fitLines fA) = normalized rawText" by (simp add: joinSp_words)
next
  let ?words = "splitWs (toUpperCase (trim rawText))"
  assume f: "fit (fst (wrapTextB mt c rawText centerX centerY boxWidth boxHeight fSize)) = Some fB"
  then have ne: "toUpperCase (trim rawText) \<noteq> []"
    by (cases "toUpperCase (trim rawText) = []") (simp_all add: wrapTextB_render nothing_def)
  from wrapTextB_Some [OF f] obtain r where
    r: "blockAt mt ?words (usableB boxWidth) (fontSize fB) = Some r"
    and fb: "fB = \<lparr>fontSize = fontSize fB, fitLines = blockLines r,
                 fitLineHeight = blockLineHeight r, blockHeight = totalHeight r\<rparr>"
    by blast
  have "fitLines fB = blockLines r" by (subst fb) simp
  with blockAt_join [OF r tight_not_Nil [OF words_tight [OF ne]]]
  show "joinSp (fitLines fB) = normalized rawText" by (simp add: joinSp_words)
next
  let ?words = "splitWs (toUpperCase (trim rawText))"
  let ?s0 = "\<lparr>fontSize = fSize, fitLines = [], fitLineHeight = 0, blockHeight = 0\<rparr>"
  assume a: "toUpperCase (trim rawText) \<noteq> [] \<and>
    (\<exists>f\<in>set (scanSizes 6 fSize). fitsC mt ?words (usableC boxWidth) (usableC boxHeight) f) \<and>
    fit (fst (wrapTextC mt c rawText centerX centerY boxWidth boxHeight fSize)) = Some fC"
  then have ne: "toUpperCase (trim rawText) \<noteq> []"
    and ex: "\<exists>f\<in>set (scanSizes 6 fSize). fitsC mt ?words (usableC boxWidth) (usableC boxHeight) f"
    and f: "fit (fst (wrapTextC mt c rawText centerX centerY boxWidth boxHeight fSize)) = Some fC"
    by simp_all
  from find_first_exists [OF ex] obtain f0 where
    "find (fitsC mt ?words (usableC boxWidth) (usableC boxHeight)) (scanSizes 6 (fontSize ?s0)) = Some f0"
    by auto
  from retryFit_first_fit [OF this, of 0 defaultCtx] obtain ls cur where
    p: "passC mt ?words (usableC boxWidth) f0 = (ls, Some cur)"
    and r: "snd (snd (retryFit mt ?words (usableC boxWidth) (usableC boxHeight) 0 defaultCtx ?s0)) =
        \<lparr>fontSize = f0, fitLines = ls @ [trim cur], fitLineHeight = f0 * 1.15,
         blockHeight = real (length (ls @ [trim cur])) * (f0 * 1.15)\<rparr>"
    by auto
  from f ne r have "fitLines fC = ls @ [trim cur]"
    by (auto simp: wrapTextC_render Let_def)
  with passC_join [OF splitWs_not_Nil words_tight [OF ne] p]
  show "joinSp (fitLines fC) = normalized rawText" by (simp add: joinSp_words)
next
  let ?words = "splitWs (toUpperCase (trim rawText))"
  assume a: "toUpperCase (trim rawText) \<noteq> [] \<and>
    fst (calculateLines mt ?words W c fSize) = Some result"
  then have ne: "toUpperCase (trim rawText) \<noteq> []"
    and r: "blockAt mt ?words W fSize = Some result"
    by (simp_all add: calculateLines_eq)
  from blockAt_join [OF r tight_not_Nil [OF words_tight [OF ne]]]
  show "joinSp (blockLines result) = normalized rawText" by (simp add: joinSp_words)
next
  let ?words = "splitWs (toUpperCase (trim rawText))"
  assume a: "toUpperCase (trim rawText) \<noteq> [] \<and>
    fitLoop m W 0 [] [] ?words = (finished, Some currentLine)"
  then have ne: "toUpperCase (trim rawText) \<noteq> []"
    and p: "fitLoop m W 0 [] [] ?words = (finished, Some currentLine)"
    by simp_all
  obtain w ws where words: "?words = w # ws"
    using splitWs_not_Nil [of "toUpperCase (trim rawText)"] by (cases ?words) auto
  from words_tight [OF ne] words have w: "tight w" and rest: "\<forall>w\<in>set ws. tight w"
    by simp_all
  from p words have "fitLoop m W (Suc 0) [] (w @ '' '') ws = (finished, Some currentLine)"
    by (simp add: Let_def)
  from fitLoop_join [OF tight_trimmed [OF w] rest this] words
  show "joinSp (finished @ [trim currentLine]) = normalized rawText"
    by (simp add: joinSp_words [symmetric])
qed

theorem C10_lines_spell_text_witness:
  "toUpperCase (trim ''  hi   you '') \<noteq> [] \<and>
   splitWs (toUpperCase (trim ''  hi   you '')) = [''HI'', ''YOU''] \<and>
   charWide (fontA 20) ''HI'' \<le> usableA 100 \<and> charWide (fontA 20) ''YOU'' \<le> usableA 100 \<and>
   fitsC charWide [''HI'', ''YOU''] (usableC 100) (usableC 100) 20 \<and>
   fit (fst (wrapTextA charWide defaultCtx ''  hi   you '' 150 50 100 100 20)) =
     Some \<lparr>fontSize = 20, fitLines = [''HI'', ''YOU''], fitLineHeight = 23, blockHeight = 46\<rparr> \<and>
   fit (fst (wrapTextB charWide defaultCtx ''  hi   you '' 150 50 100 100 20)) =
     Some \<lparr>fontSize = 20, fitLines = [''HI'', ''YOU''], fitLineHeight = 23, blockHeight = 46\<rparr> \<and>
   fit (fst (wrapTextC charWide defaultCtx ''  hi   you '' 150 50 100 100 20)) =
     Some \<lparr>fontSize = 20, fitLines = [''HI'', ''YOU''], fitLineHeight = 23, blockHeight = 46\<rparr> \<and>
   fst (calculateLines charWide [''HI'', ''YOU''] 70 defaultCtx 20) =
     Some \<lparr>blockLines = [''HI'', ''YOU''], totalHeight = 46, blockLineHeight = 23\<rparr> \<and>
   fitLoop (charWide (fontB 20)) 76 0 [] [] [''HI'', ''YOU''] = ([''HI''], Some ''YOU '') \<and>
   joinSp ([''HI''] @ [trim ''YOU '']) = normalized ''  hi   you '' \<and>
   joinSp [''HI'', ''YOU''] = normalized ''  hi   you '' \<and>
   normalized ''  hi   you '' = ''HI YOU''"
proof -
  have t: "toUpperCase (trim ''  hi   you '') = ''HI   YOU''" by (simp add: text_eval)
  have s: "splitWs ''HI   YOU'' = [''HI'', ''YOU'']" by (simp add: text_eval)
  have h1: "toUpperCase (trim ''  hi   you '') \<noteq> []" by (simp add: t)
  have h2: "\<forall>w\<in>set (splitWs (toUpperCase (trim ''  hi   you ''))). charWide (fontA 20) w \<le> usableA 100"
    by (simp add: t s charWide_def fontA_def usableA_def)
  have sc: "scanSizes 6 20 = 20 # scanSizes 6 19" by (subst scanSizes.simps) simp
  have fc: "fitsC charWide [''HI'', ''YOU''] (usableC 100) (usableC 100) 20"
    by (simp add: fitsC_def passC_def usableC_def Let_def charWide_def fontB_def text_eval)
  then have h3: "\<exists>f\<in>set (scanSizes 6 20).
       fitsC charWide (splitWs (toUpperCase (trim ''  hi   you ''))) (usableC 100) (usableC 100) f"
    by (simp add: t s sc)
  have hA: "fit (fst (wrapTextA charWide defaultCtx ''  hi   you '' 150 50 100 100 20)) =
     Some \<lparr>fontSize = 20, fitLines = [''HI'', ''YOU''], fitLineHeight = 23, blockHeight = 46\<rparr>"
    by (simp add: evalA)
  have hB: "fit (fst (wrapTextB charWide defaultCtx ''  hi   you '' 150 50 100 100 20)) =
     Some \<lparr>fontSize = 20, fitLines = [''HI'', ''YOU''], fitLineHeight = 23, blockHeight = 46\<rparr>"
    by (simp add: evalB)
  have hC: "fit (fst (wrapTextC charWide defaultCtx ''  hi   you '' 150 50 100 100 20)) =
     Some \<lparr>fontSize = 20, fitLines = [''HI'', ''YOU''], fitLineHeight = 23, blockHeight = 46\<rparr>"
    by (simp add: evalC)
  have n: "normalized ''  hi   you '' = ''HI YOU''"
    by (simp add: normalized_def t isSpace_def)
  have hK: "fst (calculateLines charWide [''HI'', ''YOU''] 70 defaultCtx 20) =
     Some \<lparr>blockLines = [''HI'', ''YOU''], totalHeight = 46, blockLineHeight = 23\<rparr>"
    by (simp add: evalB)
  have hL: "fitLoop (charWide (fontB 20)) 76 0 [] [] [''HI'', ''YOU''] = ([''HI''], Some ''YOU '')"
    by (simp add: Let_def charWide_def fontB_def text_eval)
  from C10_lines_spell_text [where rawText = "''  hi   you ''" and mt = charWide and c = defaultCtx
      and centerX = 150 and centerY = 50 and boxWidth = 100 and boxHeight = 100 and fSize = 20
      and fA = "\<lparr>fontSize = 20, fitLines = [''HI'', ''YOU''], fitLineHeight = 23, blockHeight = 46\<rparr>"
      and fB = "\<lparr>fontSize = 20, fitLines = [''HI'', ''YOU''], fitLineHeight = 23, blockHeight = 46\<rparr>"
      and fC = "\<lparr>fontSize = 20, fitLines = [''HI'', ''YOU''], fitLineHeight = 23, blockHeight = 46\<rparr>"
      and W = 70 and result = "\<lparr>blockLines = [''HI'', ''YOU''], totalHeight = 46, blockLineHeight = 23\<rparr>"]
    h1 h2 h3 hA hB hC hK
  have part1: "joinSp [''HI'', ''YOU''] = normalized ''  hi   you ''"
    by (simp add: t s)
  from C10_lines_spell_text [where rawText = "''  hi   you ''" and m = "charWide (fontB 20)"
      and W = 76 and finished = "[''HI'']" and currentLine = "''YOU ''"] h1 hL
  have part2: "joinSp ([''HI''] @ [trim ''YOU '']) = normalized ''  hi   you ''"
    by (simp add: t s)
  from h1 h2 fc hA hB hC hK hL part1 part2 n show ?thesis by (simp add: t s)
qed

end
